theory Spec2Isabelle
  imports Main "HOL-Library.Word"
begin

section \<open>Go values: machine integers, panics, decimal rendering\<close>

text \<open>
  Go's \<open>int\<close> and \<open>int64\<close> are modelled as 64-bit words read as two's complement
  (\<open>sint\<close>), the width of \<open>int\<close> on the 64-bit targets of Go. \<open>+\<close> and \<open>-\<close> wrap.
  A panic and \<open>log.Fatal\<close> are values of \<open>error\<close>; a function that can panic returns
  \<open>error + result\<close>.
\<close>

type_synonym go_int = "64 word"

datatype error = Panic string | Fatal string

definition digitChar :: "nat \<Rightarrow> char" where
  "digitChar d = ''0123456789'' ! (d mod 10)"

fun digitsOf :: "nat \<Rightarrow> string" where
  "digitsOf n = (if n < 10 then [digitChar n] else digitsOf (n div 10) @ [digitChar (n mod 10)])"

declare digitsOf.simps [simp del]

text \<open>\<open>strconv.Itoa\<close>: the decimal digits, with a leading minus sign for a negative value.\<close>

definition Itoa :: "go_int \<Rightarrow> string" where
  "Itoa i = (if sint i < 0 then CHR ''-'' # digitsOf (nat (- sint i)) else digitsOf (nat (sint i)))"

section \<open>The schema catalog (ddls.go)\<close>

type_synonym tableName = string

definition Merchant :: tableName where "Merchant = ''merchant''"
definition Product :: tableName where "Product = ''product''"
definition Variant :: tableName where "Variant = ''variant''"
definition Store :: tableName where "Store = ''store''"
definition ProductInterleaved :: tableName where "ProductInterleaved = ''product (interleaved)''"
definition VariantInterleaved :: tableName where "VariantInterleaved = ''variant (interleaved)''"
definition StoreInterleaved :: tableName where "StoreInterleaved = ''store (interleaved)''"

definition interleaveName :: "tableName \<rightharpoonup> tableName" where
  "interleaveName =
     [Product \<mapsto> ProductInterleaved, Variant \<mapsto> VariantInterleaved, Store \<mapsto> StoreInterleaved]"

text \<open>
  \<open>type columnType int\<close> with the constants numbered by \<open>iota\<close>; any other integer is
  a value of the type too, which is what the \<open>default\<close> branch of \<open>genValues\<close> is for.
\<close>

type_synonym columnType = int

definition Text :: columnType where "Text = 0"
definition IntCol :: columnType where "IntCol = 1"
definition Dec :: columnType where "Dec = 2"
definition PkeyInt :: columnType where "PkeyInt = 3"
definition FkeyInt :: columnType where "FkeyInt = 4"

text \<open>The package-level variables and the flags that the generator reads.\<close>

record globals =
  seed :: go_int
  nMerchants :: go_int
  nProducts :: go_int
  nVariants :: go_int
  nStores :: go_int
  tableTypes :: "tableName \<rightharpoonup> columnType list"
  tableRows :: "tableName \<rightharpoonup> go_int"
  insertStmts :: "tableName \<rightharpoonup> string"

definition tableTypes_init :: "tableName \<rightharpoonup> columnType list" where
  "tableTypes_init =
     [Merchant \<mapsto> [PkeyInt, Text, Text],
      Product \<mapsto> [FkeyInt, PkeyInt, Text, Text],
      Variant \<mapsto> [FkeyInt, FkeyInt, PkeyInt, Text, IntCol, Dec],
      Store \<mapsto> [FkeyInt, PkeyInt, Text, Text]]"

definition nl :: string where
  "nl = [CHR 0x0A]"

definition insertStmts_init :: "tableName \<rightharpoonup> string" where
  "insertStmts_init =
     [Merchant \<mapsto> nl @ ''  insert into merchant'' @ nl @ ''  (m_id, m_name, m_address)'' @ nl
         @ ''  values'' @ nl @ ''  '',
      Product \<mapsto> nl @ ''  insert into product'' @ nl @ ''  (p_m_id, p_id, p_name, p_desc)'' @ nl
         @ ''  values'' @ nl @ ''  '',
      Variant \<mapsto> nl @ ''  insert into variant'' @ nl
         @ ''  (v_m_id, v_p_id, v_id, v_name, v_qty, v_price)'' @ nl @ ''  values'' @ nl @ ''  '',
      Store \<mapsto> nl @ ''  insert into store'' @ nl @ ''  (s_m_id, s_id, s_name, s_address)'' @ nl
         @ ''  values'' @ nl @ ''  '']"

text \<open>A Go map read: the zero value when the key is absent.\<close>

definition lookupOr :: "'v \<Rightarrow> ('k \<rightharpoonup> 'v) \<Rightarrow> 'k \<Rightarrow> 'v" where
  "lookupOr z m k = (case m k of None \<Rightarrow> z | Some v \<Rightarrow> v)"

text \<open>
  The loops \<open>for name, v := range m { m[interleaveName[name]] = v }\<close> of \<open>initDDL\<close>.
  A \<open>range\<close> over a map visits the keys in an order Go leaves open, and may or may not
  visit the entries the loop itself creates; the list of visited keys is the first argument.
  Only keys of the map are visited, so a key that is absent is stepped over.
\<close>

fun interleaveCopy :: "tableName list \<Rightarrow> (tableName \<rightharpoonup> 'v) \<Rightarrow> (tableName \<rightharpoonup> 'v)" where
  "interleaveCopy [] m = m"
| "interleaveCopy (name # names) m =
     interleaveCopy names
       (case m name of None \<Rightarrow> m | Some v \<Rightarrow> m(lookupOr '''' interleaveName name \<mapsto> v))"

definition initDDL ::
  "tableName list \<Rightarrow> tableName list \<Rightarrow> tableName list \<Rightarrow> globals \<Rightarrow> globals" where
  "initDDL typeOrder stmtOrder rowOrder g =
     g\<lparr>tableTypes := interleaveCopy typeOrder (tableTypes g),
       insertStmts := interleaveCopy stmtOrder (insertStmts g),
       tableRows := interleaveCopy rowOrder
         ((tableRows g)(Merchant \<mapsto> nMerchants g, Product \<mapsto> nProducts g,
            Variant \<mapsto> nVariants g, Store \<mapsto> nStores g))\<rparr>"

text \<open>The package variables as the declarations initialise them, for given flag values.\<close>

definition package_vars :: "go_int \<Rightarrow> go_int \<Rightarrow> go_int \<Rightarrow> go_int \<Rightarrow> go_int \<Rightarrow> globals" where
  "package_vars sd m p v s =
     \<lparr>seed = sd, nMerchants = m, nProducts = p, nVariants = v, nStores = s,
      tableTypes = tableTypes_init, tableRows = Map.empty, insertStmts = insertStmts_init\<rparr>"

section \<open>Slices over a heap of backing arrays\<close>

text \<open>
  A slice is a (pointer, length, capacity) triple into a backing array; the heap is the list
  of backing arrays, an address is an index into it, and memory is never reclaimed while
  it is reachable. Two slices with the same \<open>Data\<close> share their bytes.
\<close>

type_synonym heap = "char list list"

record slice =
  Data :: nat
  Len :: nat
  Cap :: nat

definition nil :: slice where
  "nil = \<lparr>Data = 0, Len = 0, Cap = 0\<rparr>"

definition bytes :: "heap \<Rightarrow> slice \<Rightarrow> string" where
  "bytes h s = (if Data s < length h then take (Len s) (h ! Data s) else [])"

text \<open>\<open>make([]byte, 0, c)\<close>\<close>

definition make0 :: "heap \<Rightarrow> nat \<Rightarrow> heap \<times> slice" where
  "make0 h c = (h @ [replicate c (CHR 0x00)], \<lparr>Data = length h, Len = 0, Cap = c\<rparr>)"

text \<open>\<open>[]byte(str)\<close>: a fresh array holding the bytes of the string.\<close>

definition byteSlice :: "heap \<Rightarrow> string \<Rightarrow> heap \<times> slice" where
  "byteSlice h str = (h @ [str], \<lparr>Data = length h, Len = length str, Cap = length str\<rparr>)"

text \<open>\<open>s[:0]\<close>\<close>

definition reslice0 :: "slice \<Rightarrow> slice" where
  "reslice0 s = s\<lparr>Len := 0\<rparr>"

section \<open>The runtime and library the generator calls\<close>

text \<open>
  \<open>math/rand\<close>, \<open>fmt\<close>, the runtime's slice growth and the database are not code of this
  repository; they are parameters. \<open>Intn r n\<close> is \<open>(*rand.Rand).Intn\<close> for \<open>n > 0\<close>
  (the library panics otherwise, which \<open>rand_Intn\<close> below writes out), \<open>Sprintf_2f\<close> is
  \<open>fmt.Sprintf("%.2f", f*decMax)\<close> on the float that \<open>Float64\<close> drew, \<open>growslice c n\<close>
  is the spare capacity a reallocating \<open>append\<close> adds beyond the \<open>n\<close> bytes needed, and
  \<open>Exec log stmt\<close> is the error, if any, of executing \<open>stmt\<close> on a database that has
  executed \<open>log\<close>.
\<close>

record ('r, 'f) runtime =
  NewSource :: "go_int \<Rightarrow> 'r"
  Intn :: "'r \<Rightarrow> go_int \<Rightarrow> go_int \<times> 'r"
  Float64 :: "'r \<Rightarrow> 'f \<times> 'r"
  Sprintf_2f :: "'f \<Rightarrow> string"
  growslice :: "nat \<Rightarrow> nat \<Rightarrow> nat"
  Exec :: "string list \<Rightarrow> string \<Rightarrow> string option"

text \<open>
  \<open>append(s, bs...)\<close>: in place when the capacity suffices, otherwise into a new,
  sufficiently large array that receives the old bytes first.
\<close>

definition append :: "('r, 'f) runtime \<Rightarrow> heap \<Rightarrow> slice \<Rightarrow> string \<Rightarrow> heap \<times> slice" where
  "append rt h s bs =
     (if Len s + length bs \<le> Cap s then
        (h[Data s := take (Len s) (h ! Data s) @ bs @ drop (Len s + length bs) (h ! Data s)],
         s\<lparr>Len := Len s + length bs\<rparr>)
      else
        (let c = Len s + length bs + growslice rt (Cap s) (Len s + length bs)
         in (h @ [bytes h s @ bs @ replicate (c - (Len s + length bs)) (CHR 0x00)],
             \<lparr>Data = length h, Len = Len s + length bs, Cap = c\<rparr>)))"

section \<open>The table writer (generate.go)\<close>

definition textChars :: string where
  "textChars = ''abcdefghijklmnopqrstuvwxyzABCDEFGHIJKLMNOPQRSTUVWXYZ1234567890''"

definition batchSize :: go_int where "batchSize = 500"
definition textLen :: nat where "textLen = 42"
definition intMax :: go_int where "intMax = 42"

text \<open>
  The writer without its \<open>db\<close> handle: the database is the log of executed statements,
  passed beside the writer.
\<close>

record 'r tableWriter =
  pkey :: go_int
  table :: tableName
  rnd :: 'r
  columnTypes :: "columnType list"
  scratch :: slice
  valuesBuf :: slice

definition newWriter ::
  "('r, 'f) runtime \<Rightarrow> globals \<Rightarrow> tableName \<Rightarrow> heap \<Rightarrow> heap \<times> 'r tableWriter" where
  "newWriter rt g t h =
     (let (h', sc) = make0 h (textLen + 2)
      in (h', \<lparr>pkey = 1, table = t, rnd = NewSource rt (seed g),
               columnTypes = lookupOr [] (tableTypes g) t, scratch = sc, valuesBuf = nil\<rparr>))"

text \<open>
  \<open>tw.rnd.Intn(n)\<close> on the state of the writer's generator, with the library's panic on
  \<open>n <= 0\<close>. The caller stores the new state of the generator.
\<close>

definition rand_Intn :: "('r, 'f) runtime \<Rightarrow> go_int \<Rightarrow> 'r \<Rightarrow> error + (go_int \<times> 'r)" where
  "rand_Intn rt n r =
     (if sint n \<le> 0 then Inl (Panic ''invalid argument to Intn'') else Inr (Intn rt r n))"

text \<open>\<open>tw.rnd.Intn(n) + 1\<close>\<close>

definition Intn_plus1 :: "('r, 'f) runtime \<Rightarrow> go_int \<Rightarrow> 'r \<Rightarrow> error + (go_int \<times> 'r)" where
  "Intn_plus1 rt n r =
     (case rand_Intn rt n r of Inl e \<Rightarrow> Inl e | Inr (v, r') \<Rightarrow> Inr (v + 1, r'))"

text \<open>The \<open>switch tw.table\<close> of \<open>randFkeyInt\<close>, which computes \<open>temp\<close>.\<close>

definition fkeyTemp ::
  "('r, 'f) runtime \<Rightarrow> globals \<Rightarrow> tableName \<Rightarrow> int \<Rightarrow> 'r \<Rightarrow> error + (go_int \<times> 'r)" where
  "fkeyTemp rt g t cidx r =
     (if t \<in> {Product, ProductInterleaved, Store, StoreInterleaved} then
        Intn_plus1 rt (nMerchants g) r
      else if t \<in> {Variant, VariantInterleaved} then
        (if cidx = 0 then Intn_plus1 rt (nMerchants g) r
         else if cidx = 1 then Intn_plus1 rt (nProducts g) r
         else Inl (Panic ''invalid fkey column index''))
      else Inl (Panic ''unsupported table for fkey generation''))"

definition randFkeyInt ::
  "('r, 'f) runtime \<Rightarrow> globals \<Rightarrow> int \<Rightarrow> heap \<times> 'r tableWriter
     \<Rightarrow> error + (slice \<times> heap \<times> 'r tableWriter)" where
  "randFkeyInt rt g cidx s =
     (let (h, tw) = s
      in case fkeyTemp rt g (table tw) cidx (rnd tw) of
           Inl e \<Rightarrow> Inl e
         | Inr (temp, r) \<Rightarrow>
             (let (h', b) = byteSlice h (Itoa temp) in Inr (b, h', tw\<lparr>rnd := r\<rparr>)))"

definition randInt ::
  "('r, 'f) runtime \<Rightarrow> heap \<times> 'r tableWriter \<Rightarrow> error + (slice \<times> heap \<times> 'r tableWriter)" where
  "randInt rt s =
     (let (h, tw) = s
      in case rand_Intn rt intMax (rnd tw) of
           Inl e \<Rightarrow> Inl e
         | Inr (v, r) \<Rightarrow> (let (h', b) = byteSlice h (Itoa v) in Inr (b, h', tw\<lparr>rnd := r\<rparr>)))"

text \<open>
  The loop of \<open>randText\<close>, by the number of iterations left. \<open>textChars[i]\<close> panics when
  the index is out of range.
\<close>

fun randTextLoop ::
  "('r, 'f) runtime \<Rightarrow> nat \<Rightarrow> slice \<Rightarrow> heap \<times> 'r tableWriter
     \<Rightarrow> error + (slice \<times> heap \<times> 'r tableWriter)" where
  "randTextLoop rt 0 sc (h, tw) = Inr (sc, h, tw)"
| "randTextLoop rt (Suc k) sc (h, tw) =
     (case rand_Intn rt (of_nat (length textChars)) (rnd tw) of
        Inl e \<Rightarrow> Inl e
      | Inr (v, r) \<Rightarrow>
          (if 0 \<le> sint v \<and> nat (sint v) < length textChars then
             (let (h', sc') = append rt h sc [textChars ! nat (sint v)]
              in randTextLoop rt k sc' (h', tw\<lparr>rnd := r\<rparr>))
           else Inl (Panic ''index out of range'')))"

definition randText ::
  "('r, 'f) runtime \<Rightarrow> heap \<times> 'r tableWriter \<Rightarrow> error + (slice \<times> heap \<times> 'r tableWriter)" where
  "randText rt s =
     (let (h, tw) = s;
          (h1, sc1) = append rt h (reslice0 (scratch tw)) [CHR 0x27]
      in case randTextLoop rt textLen sc1 (h1, tw) of
           Inl e \<Rightarrow> Inl e
         | Inr (sc2, h2, tw2) \<Rightarrow>
             (let (h3, sc3) = append rt h2 sc2 [CHR 0x27] in Inr (sc3, h3, tw2)))"

definition randDec ::
  "('r, 'f) runtime \<Rightarrow> heap \<times> 'r tableWriter \<Rightarrow> error + (slice \<times> heap \<times> 'r tableWriter)" where
  "randDec rt s =
     (let (h, tw) = s;
          (f, r) = Float64 rt (rnd tw);
          (h', b) = byteSlice h (Sprintf_2f rt f)
      in Inr (b, h', tw\<lparr>rnd := r\<rparr>))"

text \<open>The \<open>switch c\<close> of \<open>genValues\<close>: the bytes of one value, in \<open>temp\<close>.\<close>

definition genValue ::
  "('r, 'f) runtime \<Rightarrow> globals \<Rightarrow> nat \<Rightarrow> columnType \<Rightarrow> heap \<times> 'r tableWriter
     \<Rightarrow> error + (slice \<times> heap \<times> 'r tableWriter)" where
  "genValue rt g i c s =
     (if c = PkeyInt then
        (let (h, tw) = s; (h', b) = byteSlice h (Itoa (pkey tw))
         in Inr (b, h', tw\<lparr>pkey := pkey tw + 1\<rparr>))
      else if c = FkeyInt then randFkeyInt rt g (int i) s
      else if c = IntCol then randInt rt s
      else if c = Text then randText rt s
      else if c = Dec then randDec rt s
      else Inl (Panic ''undefined column type''))"

text \<open>The inner loop, over the columns left, with the index of the next one.\<close>

fun genColumns ::
  "('r, 'f) runtime \<Rightarrow> globals \<Rightarrow> nat \<Rightarrow> columnType list \<Rightarrow> bool \<Rightarrow> slice
     \<Rightarrow> heap \<times> 'r tableWriter \<Rightarrow> error + (slice \<times> heap \<times> 'r tableWriter)" where
  "genColumns rt g i [] commaValues values (h, tw) = Inr (values, h, tw)"
| "genColumns rt g i (c # cs) commaValues values (h, tw) =
     (let (h1, values1) = (if commaValues then append rt h values '','' else (h, values))
      in case genValue rt g i c (h1, tw) of
           Inl e \<Rightarrow> Inl e
         | Inr (temp, h2, tw2) \<Rightarrow>
             (let (h3, values3) = append rt h2 values1 (bytes h2 temp)
              in genColumns rt g (Suc i) cs True values3 (h3, tw2)))"

text \<open>The outer loop, by the number of tuples left.\<close>

fun genTuples ::
  "('r, 'f) runtime \<Rightarrow> globals \<Rightarrow> nat \<Rightarrow> bool \<Rightarrow> slice
     \<Rightarrow> heap \<times> 'r tableWriter \<Rightarrow> error + (slice \<times> heap \<times> 'r tableWriter)" where
  "genTuples rt g 0 commaTuples values (h, tw) = Inr (values, h, tw)"
| "genTuples rt g (Suc k) commaTuples values (h, tw) =
     (let (h1, values1) = (if commaTuples then append rt h values '','' else (h, values));
          (h2, values2) = append rt h1 values1 ''(''
      in case genColumns rt g 0 (columnTypes tw) False values2 (h2, tw) of
           Inl e \<Rightarrow> Inl e
         | Inr (values3, h3, tw3) \<Rightarrow>
             (let (h4, values4) = append rt h3 values3 '')''
              in genTuples rt g k True values4 (h4, tw3)))"

text \<open>
  \<open>for i := 0; i < nTuples; i++\<close> runs \<open>nTuples\<close> times, and not at all when
  \<open>nTuples\<close> is zero or negative.
\<close>

definition genValues ::
  "('r, 'f) runtime \<Rightarrow> globals \<Rightarrow> go_int \<Rightarrow> heap \<times> 'r tableWriter
     \<Rightarrow> error + (slice \<times> heap \<times> 'r tableWriter)" where
  "genValues rt g nTuples s =
     (let (h, tw) = s
      in genTuples rt g (nat (sint nTuples)) False (reslice0 (valuesBuf tw)) (h, tw))"

text \<open>
  The body of the loop of \<open>insertData\<close> for one batch: generate the values into
  \<open>tw.valuesBuf\<close>, format the statement, execute it; \<open>log.Fatal\<close> when the database
  returns an error. The database is the list of the statements it has executed.
\<close>

definition insertBatch ::
  "('r, 'f) runtime \<Rightarrow> globals \<Rightarrow> go_int \<Rightarrow> string list \<Rightarrow> heap \<times> 'r tableWriter
     \<Rightarrow> error + (string list \<times> heap \<times> 'r tableWriter)" where
  "insertBatch rt g curBatch db s =
     (case genValues rt g curBatch s of
        Inl e \<Rightarrow> Inl e
      | Inr (values, h', tw') \<Rightarrow>
          (let tw'' = tw'\<lparr>valuesBuf := values\<rparr>;
               stmt = lookupOr [] (insertStmts g) (table tw'') @ '' ''
                      @ bytes h' (valuesBuf tw'') @ '';''
           in case Exec rt db stmt of
                Some err \<Rightarrow> Inl (Fatal err)
              | None \<Rightarrow> Inr (db @ [stmt], h', tw'')))"

text \<open>
  The loop of \<open>insertData\<close>, on the remaining row count and the current batch size. With
  a batch size that is not positive the loop of the source does not end, so the loop is a
  partial function: \<open>None\<close> is not returning.
\<close>

partial_function (option) insertLoop ::
  "('r, 'f) runtime \<Rightarrow> globals \<Rightarrow> go_int \<Rightarrow> go_int \<Rightarrow> string list \<Rightarrow> heap \<times> 'r tableWriter
     \<Rightarrow> (error + (string list \<times> heap \<times> 'r tableWriter)) option" where
  "insertLoop rt g remainingRows curBatch db s =
     (if 0 <s remainingRows then
        (let curBatch' = (if remainingRows <s curBatch then remainingRows else curBatch)
         in case insertBatch rt g curBatch' db s of
              Inl e \<Rightarrow> Some (Inl e)
            | Inr (db', s') \<Rightarrow> insertLoop rt g (remainingRows - curBatch') curBatch' db' s')
      else Some (Inr (db, s)))"

declare insertLoop.simps [code]

definition insertData ::
  "('r, 'f) runtime \<Rightarrow> globals \<Rightarrow> string list \<Rightarrow> heap \<times> 'r tableWriter
     \<Rightarrow> (error + (string list \<times> heap \<times> 'r tableWriter)) option" where
  "insertData rt g db s =
     insertLoop rt g (lookupOr 0 (tableRows g) (table (snd s))) batchSize db s"

text \<open>
  The loop body run for a given list of batch sizes: what a writer does when its row
  target is consumed in batches of these sizes.
\<close>

fun insertBatches ::
  "('r, 'f) runtime \<Rightarrow> globals \<Rightarrow> go_int list \<Rightarrow> string list \<Rightarrow> heap \<times> 'r tableWriter
     \<Rightarrow> error + (string list \<times> heap \<times> 'r tableWriter)" where
  "insertBatches rt g [] db s = Inr (db, s)"
| "insertBatches rt g (n # ns) db s =
     (case insertBatch rt g n db s of
        Inl e \<Rightarrow> Inl e
      | Inr (db', s') \<Rightarrow> insertBatches rt g ns db' s')"

section \<open>The generated values, without the buffers\<close>

text \<open>
  What the writer generates, as a function of the primary-key counter and the generator's
  state alone: the same draws in the same order as \<open>genValue\<close>, \<open>genColumns\<close> and
  \<open>genTuples\<close>, with the strings as values instead of bytes in a buffer. The lemmas
  \<open>genValue_refines\<close>, \<open>genColumns_refines\<close>, \<open>genTuples_refines\<close> and
  \<open>genValues_refines\<close> relate the two.
\<close>

fun drawText :: "('r, 'f) runtime \<Rightarrow> nat \<Rightarrow> 'r \<Rightarrow> error + (string \<times> 'r)" where
  "drawText rt 0 r = Inr ([], r)"
| "drawText rt (Suc k) r =
     (case rand_Intn rt (of_nat (length textChars)) r of
        Inl e \<Rightarrow> Inl e
      | Inr (v, r') \<Rightarrow>
          (if 0 \<le> sint v \<and> nat (sint v) < length textChars then
             (case drawText rt k r' of
                Inl e \<Rightarrow> Inl e
              | Inr (cs, r'') \<Rightarrow> Inr (textChars ! nat (sint v) # cs, r''))
           else Inl (Panic ''index out of range'')))"

definition valueOf ::
  "('r, 'f) runtime \<Rightarrow> globals \<Rightarrow> tableName \<Rightarrow> nat \<Rightarrow> columnType \<Rightarrow> go_int \<times> 'r
     \<Rightarrow> error + (string \<times> go_int \<times> 'r)" where
  "valueOf rt g t i c s =
     (let (pk, r) = s
      in if c = PkeyInt then Inr (Itoa pk, pk + 1, r)
         else if c = FkeyInt then
           (case fkeyTemp rt g t (int i) r of
              Inl e \<Rightarrow> Inl e
            | Inr (v, r') \<Rightarrow> Inr (Itoa v, pk, r'))
         else if c = IntCol then
           (case rand_Intn rt intMax r of Inl e \<Rightarrow> Inl e | Inr (v, r') \<Rightarrow> Inr (Itoa v, pk, r'))
         else if c = Text then
           (case drawText rt textLen r of
              Inl e \<Rightarrow> Inl e
            | Inr (cs, r') \<Rightarrow> Inr ([CHR 0x27] @ cs @ [CHR 0x27], pk, r'))
         else if c = Dec then
           (let (f, r') = Float64 rt r in Inr (Sprintf_2f rt f, pk, r'))
         else Inl (Panic ''undefined column type''))"

fun rowOf ::
  "('r, 'f) runtime \<Rightarrow> globals \<Rightarrow> tableName \<Rightarrow> nat \<Rightarrow> columnType list \<Rightarrow> go_int \<times> 'r
     \<Rightarrow> error + (string list \<times> go_int \<times> 'r)" where
  "rowOf rt g t i [] s = Inr ([], s)"
| "rowOf rt g t i (c # cs) s =
     (case valueOf rt g t i c s of
        Inl e \<Rightarrow> Inl e
      | Inr (x, s') \<Rightarrow>
          (case rowOf rt g t (Suc i) cs s' of
             Inl e \<Rightarrow> Inl e
           | Inr (xs, s'') \<Rightarrow> Inr (x # xs, s'')))"

fun rowsOf ::
  "('r, 'f) runtime \<Rightarrow> globals \<Rightarrow> tableName \<Rightarrow> columnType list \<Rightarrow> nat \<Rightarrow> go_int \<times> 'r
     \<Rightarrow> error + (string list list \<times> go_int \<times> 'r)" where
  "rowsOf rt g t cts 0 s = Inr ([], s)"
| "rowsOf rt g t cts (Suc k) s =
     (case rowOf rt g t 0 cts s of
        Inl e \<Rightarrow> Inl e
      | Inr (row, s') \<Rightarrow>
          (case rowsOf rt g t cts k s' of
             Inl e \<Rightarrow> Inl e
           | Inr (rows, s'') \<Rightarrow> Inr (row # rows, s'')))"

fun batchesOf ::
  "('r, 'f) runtime \<Rightarrow> globals \<Rightarrow> tableName \<Rightarrow> columnType list \<Rightarrow> nat list \<Rightarrow> go_int \<times> 'r
     \<Rightarrow> error + (string list list list \<times> go_int \<times> 'r)" where
  "batchesOf rt g t cts [] s = Inr ([], s)"
| "batchesOf rt g t cts (n # ns) s =
     (case rowsOf rt g t cts n s of
        Inl e \<Rightarrow> Inl e
      | Inr (rows, s') \<Rightarrow>
          (case batchesOf rt g t cts ns s' of
             Inl e \<Rightarrow> Inl e
           | Inr (bs, s'') \<Rightarrow> Inr (rows # bs, s'')))"

text \<open>The serialization: values joined by commas in parentheses, tuples joined by commas.\<close>

fun joinFrom :: "bool \<Rightarrow> string list \<Rightarrow> string" where
  "joinFrom comma [] = []"
| "joinFrom comma (x # xs) = (if comma then '','' else []) @ x @ joinFrom True xs"

definition tupleText :: "string list \<Rightarrow> string" where
  "tupleText row = ''('' @ joinFrom False row @ '')''"

definition valuesText :: "string list list \<Rightarrow> string" where
  "valuesText rows = joinFrom False (map tupleText rows)"

definition stmtText :: "globals \<Rightarrow> tableName \<Rightarrow> string list list \<Rightarrow> string" where
  "stmtText g t rows = lookupOr [] (insertStmts g) t @ '' '' @ valuesText rows @ '';''"

text \<open>The values of a row that stand in the primary-key columns.\<close>

definition pkeyCells :: "columnType list \<Rightarrow> string list \<Rightarrow> string list" where
  "pkeyCells cts row = map snd (filter (\<lambda>p. fst p = PkeyInt) (zip cts row))"

text \<open>
  The batch sizes of \<open>insertData\<close> for a row target: full batches of \<open>batchSize\<close>, then
  the remainder when there is one.
\<close>

definition batchSizes :: "nat \<Rightarrow> nat list" where
  "batchSizes R =
     replicate (R div 500) 500 @ (if R mod 500 = 0 then [] else [R mod 500])"

text \<open>
  What the loop body submits for a list of batch sizes, from a database \<open>db\<close>: the statement
  of each batch in turn, until one fails.
\<close>

fun submitOf ::
  "('r, 'f) runtime \<Rightarrow> globals \<Rightarrow> tableName \<Rightarrow> columnType list \<Rightarrow> nat list \<Rightarrow> string list
     \<Rightarrow> go_int \<times> 'r \<Rightarrow> error + (string list \<times> go_int \<times> 'r)" where
  "submitOf rt g t cts [] db s = Inr (db, s)"
| "submitOf rt g t cts (n # ns) db s =
     (case rowsOf rt g t cts n s of
        Inl e \<Rightarrow> Inl e
      | Inr (rows, s') \<Rightarrow>
          (case Exec rt db (stmtText g t rows) of
             Some err \<Rightarrow> Inl (Fatal err)
           | None \<Rightarrow> submitOf rt g t cts ns (db @ [stmtText g t rows]) s'))"

section \<open>Well-formed heaps and writers\<close>

definition valid :: "heap \<Rightarrow> slice \<Rightarrow> bool" where
  "valid h s \<longleftrightarrow>
     Len s \<le> Cap s \<and> (0 < Cap s \<longrightarrow> Data s < length h \<and> Cap s \<le> length (h ! Data s))"

definition footprint :: "slice \<Rightarrow> nat set" where
  "footprint s = (if Cap s = 0 then {} else {Data s})"

text \<open>
  \<open>ext A h h'\<close>: the heap \<open>h'\<close> has the arrays of \<open>h\<close>, with their lengths, and more;
  only the arrays at the addresses in \<open>A\<close> may hold other bytes.
\<close>

definition ext :: "nat set \<Rightarrow> heap \<Rightarrow> heap \<Rightarrow> bool" where
  "ext A h h' \<longleftrightarrow>
     length h \<le> length h' \<and>
     (\<forall>i < length h. length (h' ! i) = length (h ! i) \<and> (i \<notin> A \<longrightarrow> h' ! i = h ! i))"

definition appended :: "heap \<Rightarrow> slice \<Rightarrow> string \<Rightarrow> slice \<times> heap \<Rightarrow> bool" where
  "appended h s bs r \<longleftrightarrow>
     (case r of (s', h') \<Rightarrow>
        valid h' s' \<and> bytes h' s' = bytes h s @ bs \<and> ext (footprint s) h h' \<and>
        (\<forall>a \<in> footprint s'. a \<in> footprint s \<or> length h \<le> a))"

definition wf :: "heap \<Rightarrow> 'r tableWriter \<Rightarrow> slice \<Rightarrow> bool" where
  "wf h tw v \<longleftrightarrow>
     valid h (scratch tw) \<and> valid h v \<and> footprint v \<inter> footprint (scratch tw) = {}"

text \<open>
  The invariant of a writer between batches: its two buffers are slices of the heap and do
  not share an array.
\<close>

definition writer_ok :: "heap \<Rightarrow> 'r tableWriter \<Rightarrow> bool" where
  "writer_ok h tw \<longleftrightarrow> wf h tw (valuesBuf tw)"

section \<open>What is assumed of the library, and an instance of it\<close>

text \<open>The contract of \<open>Intn\<close>: for a positive bound, a value from 0 up to the bound.\<close>

definition Intn_ok :: "('r, 'f) runtime \<Rightarrow> bool" where
  "Intn_ok rt \<longleftrightarrow> (\<forall>r n. 0 <s n \<longrightarrow> 0 \<le>s fst (Intn rt r n) \<and> fst (Intn rt r n) <s n)"

text \<open>A database that executes every statement.\<close>

definition db_accepts :: "('r, 'f) runtime \<Rightarrow> bool" where
  "db_accepts rt \<longleftrightarrow> (\<forall>db stmt. Exec rt db stmt = None)"

text \<open>
  A small instance of the runtime, for evaluating the generator on concrete inputs: a
  linear congruential generator reduced modulo the bound, a decimal in hundredths, a
  reallocation that adds the old capacity as spare room, a database that accepts everything.
\<close>

definition lcg :: "nat \<Rightarrow> nat" where
  "lcg r = (r * 75 + 74) mod 65537"

definition toy_runtime :: "(nat, nat) runtime" where
  "toy_runtime =
     \<lparr>NewSource = (\<lambda>s. unat s mod 65537),
      Intn = (\<lambda>r n. (of_nat (r mod nat (sint n)), lcg r)),
      Float64 = (\<lambda>r. (r mod 4200, lcg r)),
      Sprintf_2f = (\<lambda>f. digitsOf (f div 100) @ ''.'' @ [digitChar (f div 10), digitChar f]),
      growslice = (\<lambda>c n. c),
      Exec = (\<lambda>db stmt. None)\<rparr>"

section \<open>Writers running concurrently (generateData)\<close>

text \<open>
  \<open>generateData\<close> creates one writer per table of the schema variant, in the order of
  the table list, and starts \<open>insertData\<close> of each as a goroutine. The writers share the
  heap, where each allocates its buffers, and the database. A goroutine is modelled between
  two iterations of its loop, by its local variables; an iteration is one step. A schedule
  is a list of events: \<open>Spawn\<close>, the main goroutine creating the next writer, and
  \<open>Run i\<close>, the goroutine of the \<open>i\<close>-th writer running one iteration of its loop (none
  when it has finished or does not exist yet).
\<close>

record 'r goroutine =
  rowsLeft :: go_int
  batch :: go_int
  writer :: "'r tableWriter"

datatype event = Spawn | Run nat

text \<open>One iteration of the loop of \<open>insertData\<close>, entered with rows remaining.\<close>

definition insertIter ::
  "('r, 'f) runtime \<Rightarrow> globals \<Rightarrow> go_int \<Rightarrow> go_int \<Rightarrow> string list \<Rightarrow> heap \<times> 'r tableWriter
     \<Rightarrow> error + (go_int \<times> go_int \<times> string list \<times> heap \<times> 'r tableWriter)" where
  "insertIter rt g remaining cur db s =
     (let cur' = (if remaining <s cur then remaining else cur)
      in case insertBatch rt g cur' db s of
           Inl e \<Rightarrow> Inl e
         | Inr (db', s') \<Rightarrow> Inr (remaining - cur', cur', db', s'))"

text \<open>
  One event, on the tables still to be given a writer, the database, the heap and the
  goroutines. Beside the new state, the statements the event added to the database, with
  the index of the writer that submitted them.
\<close>

fun goStep ::
  "('r, 'f) runtime \<Rightarrow> globals \<Rightarrow> event
     \<Rightarrow> tableName list \<times> string list \<times> heap \<times> 'r goroutine list
     \<Rightarrow> error + ((tableName list \<times> string list \<times> heap \<times> 'r goroutine list)
                 \<times> (nat \<times> string list) list)" where
  "goStep rt g Spawn (pending, db, h, ps) =
     (case pending of
        [] \<Rightarrow> Inr ((pending, db, h, ps), [])
      | t # ts \<Rightarrow>
          (let (h', w) = newWriter rt g t h
           in Inr ((ts, db, h',
                    ps @ [\<lparr>rowsLeft = lookupOr 0 (tableRows g) t, batch = batchSize,
                            writer = w\<rparr>]), [])))"
| "goStep rt g (Run i) (pending, db, h, ps) =
     (if i < length ps \<and> 0 <s rowsLeft (ps ! i) then
        (case insertIter rt g (rowsLeft (ps ! i)) (batch (ps ! i)) db (h, writer (ps ! i)) of
           Inl e \<Rightarrow> Inl e
         | Inr (remaining', cur', db', h', tw') \<Rightarrow>
             Inr ((pending, db', h',
                   ps[i := \<lparr>rowsLeft = remaining', batch = cur', writer = tw'\<rparr>]),
                  [(i, drop (length db) db')]))
      else Inr ((pending, db, h, ps), []))"

fun runSched ::
  "('r, 'f) runtime \<Rightarrow> globals \<Rightarrow> event list
     \<Rightarrow> (tableName list \<times> string list \<times> heap \<times> 'r goroutine list) \<times> (nat \<times> string list) list
     \<Rightarrow> error + ((tableName list \<times> string list \<times> heap \<times> 'r goroutine list)
                 \<times> (nat \<times> string list) list)" where
  "runSched rt g [] st = Inr st"
| "runSched rt g (e # es) (st, trace) =
     (case goStep rt g e st of
        Inl x \<Rightarrow> Inl x
      | Inr (st', out) \<Rightarrow> runSched rt g es (st', trace @ out))"

definition submittedBy :: "nat \<Rightarrow> (nat \<times> string list) list \<Rightarrow> string list" where
  "submittedBy i trace = concat (map snd (filter (\<lambda>e. fst e = i) trace))"

text \<open>
  The statements of a table: for each batch size in turn the statement of the rows generated,
  up to the first batch that cannot be generated. A function of the library, the flags and
  the catalog, and the table.
\<close>

fun stmtsOf ::
  "('r, 'f) runtime \<Rightarrow> globals \<Rightarrow> tableName \<Rightarrow> columnType list \<Rightarrow> nat list \<Rightarrow> go_int \<times> 'r
     \<Rightarrow> string list" where
  "stmtsOf rt g t cts [] s = []"
| "stmtsOf rt g t cts (n # ns) s =
     (case rowsOf rt g t cts n s of
        Inl e \<Rightarrow> []
      | Inr (rows, s') \<Rightarrow> stmtText g t rows # stmtsOf rt g t cts ns s')"

definition tableStatements :: "('r, 'f) runtime \<Rightarrow> globals \<Rightarrow> tableName \<Rightarrow> string list" where
  "tableStatements rt g t =
     stmtsOf rt g t (lookupOr [] (tableTypes g) t)
       (batchSizes (nat (sint (lookupOr 0 (tableRows g) t)))) (1, NewSource rt (seed g))"

section \<open>The connection pool (main.go)\<close>




text \<open>The flags that decide which database handle \<open>main\<close> uses, and for what.\<close>

record flags =
  dbURL :: string
  dbms :: string
  variant :: string
  drop_flag :: bool
  load_flag :: bool
  loadfile :: string
  concurrency :: int








section \<open>Columns that can be generated\<close>

text \<open>
  \<open>fkey_ok g t i\<close>: \<open>randFkeyInt\<close> has a branch for column \<open>i\<close> of table \<open>t\<close>, and
  the bound it passes to \<open>Intn\<close> there is positive.
\<close>

definition fkey_ok :: "globals \<Rightarrow> tableName \<Rightarrow> nat \<Rightarrow> bool" where
  "fkey_ok g t i \<longleftrightarrow>
     (if t \<in> {Product, ProductInterleaved, Store, StoreInterleaved} then 0 <s nMerchants g
      else if t \<in> {Variant, VariantInterleaved} then
        (if i = 0 then 0 <s nMerchants g else if i = 1 then 0 <s nProducts g else False)
      else False)"

text \<open>
  \<open>columns_ok g t i cs\<close>: the column kinds \<open>cs\<close>, standing at the indices from \<open>i\<close> on,
  are the five that \<open>genValues\<close> has a case for, and each foreign key is \<open>fkey_ok\<close>.
\<close>

fun columns_ok :: "globals \<Rightarrow> tableName \<Rightarrow> nat \<Rightarrow> columnType list \<Rightarrow> bool" where
  "columns_ok g t i [] = True"
| "columns_ok g t i (c # cs) =
     ((c = Text \<or> c = IntCol \<or> c = Dec \<or> c = PkeyInt \<or> (c = FkeyInt \<and> fkey_ok g t i)) \<and>
      columns_ok g t (Suc i) cs)"

text \<open>
  \<open>fkey_in_range g t i v\<close>: \<open>v\<close> is at least 1, and at most the row count of the parent
  table of column \<open>i\<close> of table \<open>t\<close>: \<open>nMerchants\<close> for the product and store tables and
  for column 0 of the variant tables, \<open>nProducts\<close> for column 1 of the variant tables.
\<close>

definition fkey_in_range :: "globals \<Rightarrow> tableName \<Rightarrow> nat \<Rightarrow> go_int \<Rightarrow> bool" where
  "fkey_in_range g t i v \<longleftrightarrow>
     1 \<le>s v \<and>
     (if t \<in> {Product, ProductInterleaved, Store, StoreInterleaved} then v \<le>s nMerchants g
      else if t \<in> {Variant, VariantInterleaved} \<and> i = 0 then v \<le>s nMerchants g
      else if t \<in> {Variant, VariantInterleaved} \<and> i = 1 then v \<le>s nProducts g
      else False)"

text \<open>
  The invariant of the goroutines under a schedule: each writer is well-formed in the shared
  heap, has the table and the columns of its place in the table list, runs full batches
  while rows remain, and has generated and submitted the batches of its table up to the rows
  it still has to generate.
\<close>

definition proc_inv ::
  "('r, 'f) runtime \<Rightarrow> globals \<Rightarrow> heap \<Rightarrow> tableName \<Rightarrow> 'r goroutine \<Rightarrow> string list \<Rightarrow> bool" where
  "proc_inv rt g h t p stmts \<longleftrightarrow>
     writer_ok h (writer p) \<and> table (writer p) = t \<and>
     columnTypes (writer p) = lookupOr [] (tableTypes g) t \<and>
     (0 <s rowsLeft p \<longrightarrow> batch p = 500) \<and>
     (\<exists>bs. batchSizes (nat (sint (lookupOr 0 (tableRows g) t)))
             = map length bs @ batchSizes (nat (sint (rowsLeft p))) \<and>
           batchesOf rt g t (lookupOr [] (tableTypes g) t) (map length bs) (1, NewSource rt (seed g))
             = Inr (bs, pkey (writer p), rnd (writer p)) \<and>
           stmts = map (stmtText g t) bs)"

definition sys_inv ::
  "('r, 'f) runtime \<Rightarrow> globals \<Rightarrow> tableName list \<Rightarrow> string list
     \<Rightarrow> tableName list \<times> string list \<times> heap \<times> 'r goroutine list
     \<Rightarrow> (nat \<times> string list) list \<Rightarrow> bool" where
  "sys_inv rt g ts db0 st trace \<longleftrightarrow>
     (case st of (pending, db, h, ps) \<Rightarrow>
        map (\<lambda>p. table (writer p)) ps @ pending = ts \<and>
        db = db0 @ concat (map snd trace) \<and>
        (\<forall>e \<in> set trace. fst e < length ps) \<and>
        (\<forall>i < length ps. proc_inv rt g h (ts ! i) (ps ! i) (submittedBy i trace)))"

section \<open>Names and kinds are distinct\<close>

lemmas tableName_defs =
  Merchant_def Product_def Variant_def Store_def
  ProductInterleaved_def VariantInterleaved_def StoreInterleaved_def

lemmas columnType_defs = Text_def IntCol_def Dec_def PkeyInt_def FkeyInt_def

section \<open>Signed 64-bit arithmetic\<close>

lemma sint_plus1:
  fixes v n :: go_int
  assumes "sint v < sint n"
  shows "sint (v + 1) = sint v + 1"
proof -
  have "sint n < 2 ^ 63" using sint_lt [of n] by simp
  moreover have "- (2 ^ 63) \<le> sint v" using sint_ge [of v] by simp
  ultimately have "signed_take_bit 63 (sint v + 1) = sint v + 1"
    using assms by (intro signed_take_bit_int_eq_self) auto
  then show ?thesis by (simp add: sint_word_ariths)
qed

lemma sint_minus_le:
  fixes a b :: go_int
  assumes "0 \<le> sint b" and "sint b \<le> sint a"
  shows "sint (a - b) = sint a - sint b"
proof -
  have "sint a < 2 ^ 63" using sint_lt [of a] by simp
  then have "signed_take_bit 63 (sint a - sint b) = sint a - sint b"
    using assms by (intro signed_take_bit_int_eq_self) auto
  then show ?thesis by (simp add: sint_word_ariths)
qed

lemma sint_of_nat_small:
  assumes "int k < 2 ^ 63"
  shows "sint (of_nat k :: go_int) = int k"
proof -
  have "signed_take_bit 63 (int k) = int k"
    using assms by (intro signed_take_bit_int_eq_self) auto
  then show ?thesis by (simp add: signed_of_nat)
qed

lemma of_nat_nat_sint:
  fixes w :: go_int
  assumes "0 \<le> sint w"
  shows "of_nat (nat (sint w)) = w"
  using assms by simp

lemma toy_Intn_ok: "Intn_ok toy_runtime"
  unfolding Intn_ok_def
proof (intro allI impI)
  fix r :: nat and n :: go_int
  assume "0 <s n"
  then have pos: "0 < sint n" by (simp add: word_sless_alt)
  define k where "k = r mod nat (sint n)"
  have "k < nat (sint n)" using pos by (simp add: k_def)
  then have k: "int k < sint n" by linarith
  have "sint n < 2 ^ 63" using sint_lt [of n] by simp
  then have "int k < 2 ^ 63" using k by linarith
  then have s: "sint (of_nat k :: go_int) = int k" by (rule sint_of_nat_small)
  have "fst (Intn toy_runtime r n) = of_nat k" by (simp add: toy_runtime_def k_def)
  then show "0 \<le>s fst (Intn toy_runtime r n) \<and> fst (Intn toy_runtime r n) <s n"
    using s k by (simp add: word_sle_eq word_sless_alt)
qed

lemma Intn_okD:
  assumes "Intn_ok rt" and "0 < sint n"
  shows "0 \<le> sint (fst (Intn rt r n))" and "sint (fst (Intn rt r n)) < sint n"
  using assms by (auto simp: Intn_ok_def word_sle_eq word_sless_alt)

lemma length_textChars: "length textChars = 62"
  by (simp add: textChars_def)

section \<open>Heaps: appending and framing\<close>

lemma ext_refl: "ext A h h"
  by (simp add: ext_def)

lemma ext_trans:
  "ext A h h1 \<Longrightarrow> ext B h1 h2 \<Longrightarrow> (\<forall>b\<in>B. b \<in> A \<or> length h \<le> b) \<Longrightarrow> ext A h h2"
  unfolding ext_def by (metis (no_types, lifting) le_trans not_less order_less_le_trans)

lemma ext_mono: "ext A h h' \<Longrightarrow> A \<subseteq> B \<Longrightarrow> ext B h h'"
  unfolding ext_def by blast

lemma ext_UNIV_trans: "ext UNIV h h1 \<Longrightarrow> ext UNIV h1 h2 \<Longrightarrow> ext UNIV h h2"
  by (rule ext_trans) auto

lemma ext_valid: "ext A h h' \<Longrightarrow> valid h s \<Longrightarrow> valid h' s"
  unfolding ext_def valid_def by (metis order_less_le_trans)

lemma ext_length: "ext A h h' \<Longrightarrow> length h \<le> length h'"
  by (simp add: ext_def)

lemma bytes_empty: "Len s = 0 \<Longrightarrow> bytes h s = []"
  by (simp add: bytes_def)

lemma ext_bytes:
  "ext A h h' \<Longrightarrow> valid h s \<Longrightarrow> footprint s \<inter> A = {} \<Longrightarrow> bytes h' s = bytes h s"
  unfolding ext_def valid_def bytes_def footprint_def
  by (cases "Cap s = 0") auto

lemma footprint_bound: "valid h s \<Longrightarrow> a \<in> footprint s \<Longrightarrow> a < length h"
  by (auto simp: valid_def footprint_def split: if_splits)

lemma append_appended:
  assumes "valid h s" and "append rt h s bs = (h', s')"
  shows "appended h s bs (s', h')"
  using assms
  unfolding append_def valid_def bytes_def ext_def appended_def footprint_def
  by (auto simp: Let_def nth_append nth_list_update split: if_splits)

lemma byteSlice_appended:
  assumes "byteSlice h str = (h', b)" and "Len s = 0"
  shows "appended h s str (b, h')"
  using assms unfolding byteSlice_def valid_def bytes_def ext_def appended_def footprint_def
  by (auto simp: nth_append)

lemma appended_trans:
  assumes "appended h s bs (s1, h1)" and "appended h1 s1 cs (s2, h2)"
  shows "appended h s (bs @ cs) (s2, h2)"
proof -
  from assms have e1: "ext (footprint s) h h1" and e2: "ext (footprint s1) h1 h2"
    and f1: "\<forall>a \<in> footprint s1. a \<in> footprint s \<or> length h \<le> a"
    and f2: "\<forall>a \<in> footprint s2. a \<in> footprint s1 \<or> length h1 \<le> a"
    and v2: "valid h2 s2" and b2: "bytes h2 s2 = bytes h1 s1 @ cs"
    and b1: "bytes h1 s1 = bytes h s @ bs"
    by (auto simp: appended_def)
  have "ext (footprint s) h h2" using ext_trans [OF e1 e2 f1] .
  moreover have "\<forall>a \<in> footprint s2. a \<in> footprint s \<or> length h \<le> a"
    using f1 f2 ext_length [OF e1] by (meson le_trans)
  ultimately show ?thesis using v2 b1 b2 by (simp add: appended_def)
qed

lemma appended_valid: "appended h s bs (s', h') \<Longrightarrow> valid h' s'"
  by (simp add: appended_def)

lemma wf_appended:
  assumes "wf h tw v" and "appended h v bs (v1, h1)"
  shows "wf h1 tw v1" and "ext UNIV h h1" and "bytes h1 v1 = bytes h v @ bs"
proof -
  from assms have e: "ext (footprint v) h h1" and v1: "valid h1 v1"
    and f: "\<forall>a \<in> footprint v1. a \<in> footprint v \<or> length h \<le> a"
    and sc: "valid h (scratch tw)" and d: "footprint v \<inter> footprint (scratch tw) = {}"
    by (auto simp: appended_def wf_def)
  have "footprint v1 \<inter> footprint (scratch tw) = {}"
    using f d footprint_bound [OF sc] by fastforce
  then show "wf h1 tw v1" using v1 ext_valid [OF e sc] by (simp add: wf_def)
  show "ext UNIV h h1" using e by (rule ext_mono) simp
  show "bytes h1 v1 = bytes h v @ bs" using assms by (simp add: appended_def)
qed

lemma wf_value:
  assumes "wf h tw v" and "appended h (reslice0 (scratch tw)) x (temp, h')"
  shows "wf h' tw v" and "bytes h' v = bytes h v" and "bytes h' temp = x" and "ext UNIV h h'"
proof -
  have fp: "footprint (reslice0 (scratch tw)) = footprint (scratch tw)"
    by (simp add: footprint_def reslice0_def)
  from assms have e: "ext (footprint (scratch tw)) h h'"
    and sc: "valid h (scratch tw)" and vv: "valid h v"
    and d: "footprint v \<inter> footprint (scratch tw) = {}"
    by (auto simp: appended_def wf_def fp)
  show "wf h' tw v" using ext_valid [OF e sc] ext_valid [OF e vv] d by (simp add: wf_def)
  show "bytes h' v = bytes h v" using ext_bytes [OF e vv d] .
  show "bytes h' temp = x" using assms(2) by (simp add: appended_def bytes_empty reslice0_def)
  show "ext UNIV h h'" using e by (rule ext_mono) simp
qed

lemma wf_upd [simp]: "wf h (tw\<lparr>pkey := p, rnd := r\<rparr>) v = wf h tw v"
  by (simp add: wf_def)

section \<open>The buffers hold the generated values\<close>

lemma randTextLoop_refines:
  assumes "valid h sc"
  shows "case drawText rt k (rnd tw) of
           Inl e \<Rightarrow> randTextLoop rt k sc (h, tw) = Inl e
         | Inr (cs, r') \<Rightarrow>
             (\<exists>sc' h'. randTextLoop rt k sc (h, tw) = Inr (sc', h', tw\<lparr>rnd := r'\<rparr>) \<and>
                appended h sc cs (sc', h'))"
  using assms
proof (induction k arbitrary: sc h tw)
  case 0
  then show ?case by (simp add: appended_def ext_refl)
next
  case (Suc k)
  show ?case
  proof (cases "rand_Intn rt (of_nat (length textChars)) (rnd tw)")
    case (Inl e)
    then show ?thesis by simp
  next
    case (Inr p)
    obtain v r1 where p: "p = (v, r1)" by (cases p)
    show ?thesis
    proof (cases "0 \<le> sint v \<and> nat (sint v) < length textChars")
      case False
      then show ?thesis using Inr p by auto
    next
      case True
      obtain h1 sc1 where a: "append rt h sc [textChars ! nat (sint v)] = (h1, sc1)"
        by (cases "append rt h sc [textChars ! nat (sint v)]")
      have ap: "appended h sc [textChars ! nat (sint v)] (sc1, h1)"
        using append_appended [OF Suc.prems a] .
      have v1: "valid h1 sc1" using ap by (rule appended_valid)
      from Suc.IH [OF v1, of "tw\<lparr>rnd := r1\<rparr>"] show ?thesis
        using Inr p True a ap
        by (auto split: sum.splits dest: appended_trans [OF ap])
    qed
  qed
qed

lemma randText_refines:
  assumes "valid h (scratch tw)"
  shows "case drawText rt textLen (rnd tw) of
           Inl e \<Rightarrow> randText rt (h, tw) = Inl e
         | Inr (cs, r') \<Rightarrow>
             (\<exists>temp h'. randText rt (h, tw) = Inr (temp, h', tw\<lparr>rnd := r'\<rparr>) \<and>
                appended h (reslice0 (scratch tw)) ([CHR 0x27] @ cs @ [CHR 0x27]) (temp, h'))"
proof -
  have v0: "valid h (reslice0 (scratch tw))"
    using assms by (simp add: valid_def reslice0_def)
  obtain h1 sc1 where a1: "append rt h (reslice0 (scratch tw)) [CHR 0x27] = (h1, sc1)"
    by (cases "append rt h (reslice0 (scratch tw)) [CHR 0x27]")
  have ap1: "appended h (reslice0 (scratch tw)) [CHR 0x27] (sc1, h1)"
    using append_appended [OF v0 a1] .
  have v1: "valid h1 sc1" using ap1 by (rule appended_valid)
  show ?thesis
  proof (cases "drawText rt textLen (rnd tw)")
    case (Inl e)
    then show ?thesis using randTextLoop_refines [OF v1, of rt textLen tw] a1
      by (simp add: randText_def)
  next
    case (Inr p)
    obtain cs r' where p: "p = (cs, r')" by (cases p)
    from randTextLoop_refines [OF v1, of rt textLen tw] Inr p
    obtain sc2 h2 where l: "randTextLoop rt textLen sc1 (h1, tw) = Inr (sc2, h2, tw\<lparr>rnd := r'\<rparr>)"
      and ap2: "appended h1 sc1 cs (sc2, h2)" by auto
    obtain h3 sc3 where a3: "append rt h2 sc2 [CHR 0x27] = (h3, sc3)"
      by (cases "append rt h2 sc2 [CHR 0x27]")
    have ap3: "appended h2 sc2 [CHR 0x27] (sc3, h3)"
      using append_appended [OF appended_valid [OF ap2] a3] .
    have "appended h (reslice0 (scratch tw)) ([CHR 0x27] @ cs @ [CHR 0x27]) (sc3, h3)"
      using appended_trans [OF ap1 appended_trans [OF ap2 ap3]] .
    then show ?thesis using Inr p a1 l a3 by (simp add: randText_def)
  qed
qed

lemma genValue_refines:
  assumes "valid h (scratch tw)"
  shows "case valueOf rt g (table tw) i c (pkey tw, rnd tw) of
           Inl e \<Rightarrow> genValue rt g i c (h, tw) = Inl e
         | Inr (x, pk', r') \<Rightarrow>
             (\<exists>temp h'. genValue rt g i c (h, tw) = Inr (temp, h', tw\<lparr>pkey := pk', rnd := r'\<rparr>) \<and>
                appended h (reslice0 (scratch tw)) x (temp, h'))"
proof -
  have l0: "Len (reslice0 (scratch tw)) = 0" by (simp add: reslice0_def)
  have bs: "\<And>str h' b. byteSlice h str = (h', b) \<Longrightarrow> appended h (reslice0 (scratch tw)) str (b, h')"
    using byteSlice_appended l0 by blast
  consider "c = PkeyInt" | "c \<noteq> PkeyInt" "c = FkeyInt" | "c \<noteq> PkeyInt" "c \<noteq> FkeyInt" "c = IntCol"
    | "c \<noteq> PkeyInt" "c \<noteq> FkeyInt" "c \<noteq> IntCol" "c = Text"
    | "c \<noteq> PkeyInt" "c \<noteq> FkeyInt" "c \<noteq> IntCol" "c \<noteq> Text" "c = Dec"
    | "c \<noteq> PkeyInt" "c \<noteq> FkeyInt" "c \<noteq> IntCol" "c \<noteq> Text" "c \<noteq> Dec"
    by blast
  then show ?thesis
  proof cases
    case 1
    then show ?thesis
      by (auto simp: valueOf_def genValue_def split: prod.splits intro: bs)
  next
    case 2
    then show ?thesis
      by (auto simp: valueOf_def genValue_def randFkeyInt_def split: prod.splits sum.splits intro: bs)
  next
    case 3
    then show ?thesis
      by (auto simp: valueOf_def genValue_def randInt_def split: prod.splits sum.splits intro: bs)
  next
    case 4
    then show ?thesis using randText_refines [OF assms, of rt]
      by (auto simp: valueOf_def genValue_def split: prod.splits sum.splits)
  next
    case 5
    then show ?thesis
      by (auto simp: valueOf_def genValue_def randDec_def split: prod.splits sum.splits intro: bs)
  next
    case 6
    then show ?thesis by (simp add: valueOf_def genValue_def)
  qed
qed

lemma genColumns_refines:
  assumes "wf h tw v"
  shows "case rowOf rt g (table tw) i cs (pkey tw, rnd tw) of
           Inl e \<Rightarrow> genColumns rt g i cs cv v (h, tw) = Inl e
         | Inr (xs, pk', r') \<Rightarrow>
             (\<exists>v' h'. genColumns rt g i cs cv v (h, tw) = Inr (v', h', tw\<lparr>pkey := pk', rnd := r'\<rparr>) \<and>
                bytes h' v' = bytes h v @ joinFrom cv xs \<and> wf h' tw v' \<and> ext UNIV h h')"
  using assms
proof (induction cs arbitrary: i cv v h tw)
  case Nil
  then show ?case by (simp add: ext_refl)
next
  case (Cons c cs)
  obtain h1 v1 where a1: "(if cv then append rt h v '','' else (h, v)) = (h1, v1)"
    by (cases "if cv then append rt h v '','' else (h, v)")
  have ap1: "appended h v (if cv then '','' else []) (v1, h1)"
  proof (cases cv)
    case True
    then show ?thesis using a1 append_appended [of h v rt "'',''" h1 v1] Cons.prems
      by (simp add: wf_def)
  next
    case False
    then show ?thesis using a1 Cons.prems by (auto simp: appended_def wf_def ext_refl)
  qed
  note w1 = wf_appended [OF Cons.prems ap1]
  have sc1: "valid h1 (scratch tw)" using w1(1) by (simp add: wf_def)
  show ?case
  proof (cases "valueOf rt g (table tw) i c (pkey tw, rnd tw)")
    case (Inl e)
    then show ?thesis using genValue_refines [OF sc1, of rt g i c] a1 by simp
  next
    case (Inr p)
    obtain x pk2 r2 where p: "p = (x, pk2, r2)" by (cases p)
    define tw2 where "tw2 = tw\<lparr>pkey := pk2, rnd := r2\<rparr>"
    from genValue_refines [OF sc1, of rt g i c] Inr p
    obtain temp h2 where gv: "genValue rt g i c (h1, tw) = Inr (temp, h2, tw2)"
      and ap2: "appended h1 (reslice0 (scratch tw)) x (temp, h2)" by (auto simp: tw2_def)
    note w2 = wf_value [OF w1(1) ap2]
    obtain h3 v3 where a3: "append rt h2 v1 (bytes h2 temp) = (h3, v3)"
      by (cases "append rt h2 v1 (bytes h2 temp)")
    have ap3: "appended h2 v1 x (v3, h3)"
      using append_appended [OF _ a3] w2(1) w2(3) by (simp add: wf_def)
    note w3 = wf_appended [OF w2(1) ap3]
    have w3': "wf h3 tw2 v3" using w3(1) by (simp add: tw2_def)
    have b3: "bytes h3 v3 = bytes h v @ (if cv then '','' else []) @ x"
      using w3(3) w2(2) w1(3) by simp
    have e3: "ext UNIV h h3"
      using ext_UNIV_trans [OF w1(2) ext_UNIV_trans [OF w2(4) w3(2)]] .
    have t2: "table tw2 = table tw" "pkey tw2 = pk2" "rnd tw2 = r2"
      "\<And>a b. tw2\<lparr>pkey := a, rnd := b\<rparr> = tw\<lparr>pkey := a, rnd := b\<rparr>"
      by (simp_all add: tw2_def)
    have step: "genColumns rt g i (c # cs) cv v (h, tw) = genColumns rt g (Suc i) cs True v3 (h3, tw2)"
      using a1 gv a3 by simp
    have ih: "case rowOf rt g (table tw) (Suc i) cs (pk2, r2) of
                Inl e \<Rightarrow> genColumns rt g (Suc i) cs True v3 (h3, tw2) = Inl e
              | Inr (xs, pk', r') \<Rightarrow>
                  (\<exists>v' h'. genColumns rt g (Suc i) cs True v3 (h3, tw2)
                       = Inr (v', h', tw\<lparr>pkey := pk', rnd := r'\<rparr>) \<and>
                     bytes h' v' = bytes h3 v3 @ joinFrom True xs \<and> wf h' tw2 v' \<and> ext UNIV h3 h')"
      using Cons.IH [OF w3', of "Suc i" True] by (auto simp: t2 split: sum.splits)
    show ?thesis
    proof (cases "rowOf rt g (table tw) (Suc i) cs (pk2, r2)")
      case (Inl e)
      then show ?thesis using ih step Inr p by simp
    next
      case r: (Inr q)
      obtain xs pk' r' where q: "q = (xs, pk', r')" by (cases q)
      from ih r q obtain v' h' where
        g: "genColumns rt g (Suc i) cs True v3 (h3, tw2) = Inr (v', h', tw\<lparr>pkey := pk', rnd := r'\<rparr>)"
        and b: "bytes h' v' = bytes h3 v3 @ joinFrom True xs"
        and w: "wf h' tw2 v'" and e: "ext UNIV h3 h'" by auto
      have "wf h' tw v'" using w by (simp add: tw2_def)
      moreover have "ext UNIV h h'" using ext_UNIV_trans [OF e3 e] .
      moreover have "bytes h' v' = bytes h v @ joinFrom cv (x # xs)" using b b3 by simp
      ultimately show ?thesis using Inr p r q step g by simp
    qed
  qed
qed

lemma genTuples_refines:
  assumes "wf h tw v"
  shows "case rowsOf rt g (table tw) (columnTypes tw) k (pkey tw, rnd tw) of
           Inl e \<Rightarrow> genTuples rt g k ct v (h, tw) = Inl e
         | Inr (rows, pk', r') \<Rightarrow>
             (\<exists>v' h'. genTuples rt g k ct v (h, tw) = Inr (v', h', tw\<lparr>pkey := pk', rnd := r'\<rparr>) \<and>
                bytes h' v' = bytes h v @ joinFrom ct (map tupleText rows) \<and> wf h' tw v' \<and>
                ext UNIV h h')"
  using assms
proof (induction k arbitrary: ct v h tw)
  case 0
  then show ?case by (simp add: ext_refl)
next
  case (Suc k)
  obtain h1 v1 where a1: "(if ct then append rt h v '','' else (h, v)) = (h1, v1)"
    by (cases "if ct then append rt h v '','' else (h, v)")
  have ap1: "appended h v (if ct then '','' else []) (v1, h1)"
  proof (cases ct)
    case True
    then show ?thesis using a1 append_appended [of h v rt "'',''" h1 v1] Suc.prems
      by (simp add: wf_def)
  next
    case False
    then show ?thesis using a1 Suc.prems by (auto simp: appended_def wf_def ext_refl)
  qed
  note w1 = wf_appended [OF Suc.prems ap1]
  obtain h2 v2 where a2: "append rt h1 v1 ''('' = (h2, v2)"
    by (cases "append rt h1 v1 ''(''")
  have ap2: "appended h1 v1 ''('' (v2, h2)"
    using append_appended [OF _ a2] w1(1) by (simp add: wf_def)
  note w2 = wf_appended [OF w1(1) ap2]
  have b2: "bytes h2 v2 = bytes h v @ (if ct then '','' else []) @ ''(''"
    using w2(3) w1(3) by simp
  have e2: "ext UNIV h h2" using ext_UNIV_trans [OF w1(2) w2(2)] .
  note cols = genColumns_refines [OF w2(1), of rt g 0 "columnTypes tw" False]
  show ?case
  proof (cases "rowOf rt g (table tw) 0 (columnTypes tw) (pkey tw, rnd tw)")
    case (Inl e)
    then show ?thesis using cols a1 a2 by simp
  next
    case (Inr p)
    obtain row pk3 r3 where p: "p = (row, pk3, r3)" by (cases p)
    define tw3 where "tw3 = tw\<lparr>pkey := pk3, rnd := r3\<rparr>"
    from cols Inr p obtain v3 h3 where
      gc: "genColumns rt g 0 (columnTypes tw) False v2 (h2, tw) = Inr (v3, h3, tw3)"
      and b3: "bytes h3 v3 = bytes h2 v2 @ joinFrom False row"
      and w3: "wf h3 tw v3" and e3: "ext UNIV h2 h3" by (auto simp: tw3_def)
    obtain h4 v4 where a4: "append rt h3 v3 '')'' = (h4, v4)"
      by (cases "append rt h3 v3 '')''")
    have ap4: "appended h3 v3 '')'' (v4, h4)"
      using append_appended [OF _ a4] w3 by (simp add: wf_def)
    note w4 = wf_appended [OF w3 ap4]
    have w4': "wf h4 tw3 v4" using w4(1) by (simp add: tw3_def)
    have b4: "bytes h4 v4 = bytes h v @ (if ct then '','' else []) @ tupleText row"
      using w4(3) b3 b2 by (simp add: tupleText_def)
    have e4: "ext UNIV h h4"
      using ext_UNIV_trans [OF e2 ext_UNIV_trans [OF e3 w4(2)]] .
    have t3: "table tw3 = table tw" "pkey tw3 = pk3" "rnd tw3 = r3"
      "columnTypes tw3 = columnTypes tw"
      "\<And>a b. tw3\<lparr>pkey := a, rnd := b\<rparr> = tw\<lparr>pkey := a, rnd := b\<rparr>"
      by (simp_all add: tw3_def)
    have step: "genTuples rt g (Suc k) ct v (h, tw) = genTuples rt g k True v4 (h4, tw3)"
      using a1 a2 gc a4 by simp
    have ih: "case rowsOf rt g (table tw) (columnTypes tw) k (pk3, r3) of
                Inl e \<Rightarrow> genTuples rt g k True v4 (h4, tw3) = Inl e
              | Inr (rows, pk', r') \<Rightarrow>
                  (\<exists>v' h'. genTuples rt g k True v4 (h4, tw3)
                       = Inr (v', h', tw\<lparr>pkey := pk', rnd := r'\<rparr>) \<and>
                     bytes h' v' = bytes h4 v4 @ joinFrom True (map tupleText rows) \<and>
                     wf h' tw3 v' \<and> ext UNIV h4 h')"
      using Suc.IH [OF w4', of True] by (auto simp: t3 split: sum.splits)
    show ?thesis
    proof (cases "rowsOf rt g (table tw) (columnTypes tw) k (pk3, r3)")
      case (Inl e)
      then show ?thesis using ih step Inr p by simp
    next
      case r: (Inr q)
      obtain rows pk' r' where q: "q = (rows, pk', r')" by (cases q)
      from ih r q obtain v' h' where
        g: "genTuples rt g k True v4 (h4, tw3) = Inr (v', h', tw\<lparr>pkey := pk', rnd := r'\<rparr>)"
        and b: "bytes h' v' = bytes h4 v4 @ joinFrom True (map tupleText rows)"
        and w: "wf h' tw3 v'" and e: "ext UNIV h4 h'" by auto
      have "wf h' tw v'" using w by (simp add: tw3_def)
      moreover have "ext UNIV h h'" using ext_UNIV_trans [OF e4 e] .
      moreover have "bytes h' v' = bytes h v @ joinFrom ct (map tupleText (row # rows))"
        using b b4 by simp
      ultimately show ?thesis using Inr p r q step g by simp
    qed
  qed
qed

lemma writer_ok_reslice: "writer_ok h tw \<Longrightarrow> wf h tw (reslice0 (valuesBuf tw))"
  by (auto simp: writer_ok_def wf_def valid_def reslice0_def footprint_def split: if_splits)

lemma genValues_refines:
  assumes "writer_ok h tw"
  shows "case rowsOf rt g (table tw) (columnTypes tw) (nat (sint n)) (pkey tw, rnd tw) of
           Inl e \<Rightarrow> genValues rt g n (h, tw) = Inl e
         | Inr (rows, pk', r') \<Rightarrow>
             (\<exists>v' h'. genValues rt g n (h, tw) = Inr (v', h', tw\<lparr>pkey := pk', rnd := r'\<rparr>) \<and>
                bytes h' v' = valuesText rows \<and> wf h' tw v' \<and> ext UNIV h h')"
proof -
  have b0: "bytes h (reslice0 (valuesBuf tw)) = []"
    by (simp add: bytes_empty reslice0_def)
  show ?thesis
    using genTuples_refines [OF writer_ok_reslice [OF assms], of rt g "nat (sint n)" False]
    by (auto simp: genValues_def valuesText_def b0 split: sum.splits)
qed

section \<open>The drawn values\<close>

lemma sint_length_textChars: "sint (of_nat (length textChars) :: go_int) = 62"
  by (simp add: textChars_def)

lemma rand_Intn_ok:
  assumes "Intn_ok rt" and "0 < sint n"
  shows "\<exists>v r'. rand_Intn rt n r = Inr (v, r') \<and> 0 \<le> sint v \<and> sint v < sint n"
proof -
  obtain v r' where i: "Intn rt r n = (v, r')" by (cases "Intn rt r n")
  have "0 \<le> sint v \<and> sint v < sint n"
    using Intn_okD [OF assms, of r] i by simp
  then show ?thesis using assms(2) i by (simp add: rand_Intn_def)
qed

lemma drawText_shape:
  assumes "Intn_ok rt"
  shows "\<exists>cs r'. drawText rt k r = Inr (cs, r') \<and> length cs = k \<and> set cs \<subseteq> set textChars"
proof (induction k arbitrary: r)
  case 0
  then show ?case by simp
next
  case (Suc k)
  obtain v r1 where i: "rand_Intn rt (of_nat (length textChars)) r = Inr (v, r1)"
    and lo: "0 \<le> sint v" and hi: "sint v < 62"
    using rand_Intn_ok [OF assms, of "of_nat (length textChars)" r]
    by (auto simp: sint_length_textChars)
  have inr: "nat (sint v) < length textChars"
    using lo hi by (simp add: textChars_def)
  obtain cs r2 where d: "drawText rt k r1 = Inr (cs, r2)" and l: "length cs = k"
    and s: "set cs \<subseteq> set textChars"
    using Suc.IH [of r1] by auto
  have "textChars ! nat (sint v) \<in> set textChars" using inr by (rule nth_mem)
  then show ?case using i lo inr d l s by simp
qed


lemma newWriter_ok: "newWriter rt g t h = (h', tw) \<Longrightarrow> writer_ok h' tw"
  by (auto simp: newWriter_def make0_def writer_ok_def wf_def valid_def footprint_def nil_def
      nth_append)

lemma newWriter_fields:
  assumes "newWriter rt g t h = (h', tw)"
  shows "pkey tw = 1" and "table tw = t" and "rnd tw = NewSource rt (seed g)"
    and "columnTypes tw = lookupOr [] (tableTypes g) t" and "ext UNIV h h'"
  using assms by (auto simp: newWriter_def make0_def ext_def nth_append)

lemma writer_ok_scratch: "writer_ok h tw \<Longrightarrow> valid h (scratch tw)"
  by (simp add: writer_ok_def wf_def)

text \<open>
  C8. With a generator that meets the contract of \<open>Intn\<close>, \<open>randText\<close> returns, and its
  value is a single quote, \<open>textLen\<close> = 42 characters of \<open>textChars\<close>, and a single quote:
  44 bytes.
\<close>

theorem randText_quoted:
  assumes "Intn_ok rt" and "valid h (scratch tw)"
  shows "\<exists>temp h' tw' cs.
           randText rt (h, tw) = Inr (temp, h', tw') \<and>
           bytes h' temp = [CHR 0x27] @ cs @ [CHR 0x27] \<and>
           length cs = 42 \<and> set cs \<subseteq> set textChars \<and>
           length (bytes h' temp) = 42 + 2"
proof -
  obtain cs r' where d: "drawText rt textLen (rnd tw) = Inr (cs, r')"
    and l: "length cs = textLen" and s: "set cs \<subseteq> set textChars"
    using drawText_shape [OF assms(1), of textLen "rnd tw"] by auto
  from randText_refines [OF assms(2), of rt] d
  obtain temp h' where r: "randText rt (h, tw) = Inr (temp, h', tw\<lparr>rnd := r'\<rparr>)"
    and a: "appended h (reslice0 (scratch tw)) ([CHR 0x27] @ cs @ [CHR 0x27]) (temp, h')"
    by auto
  have "bytes h' temp = [CHR 0x27] @ cs @ [CHR 0x27]"
    using a by (simp add: appended_def bytes_empty reslice0_def)
  then show ?thesis using r l s by (simp add: textLen_def)
qed

theorem randText_quoted_witness:
  "Intn_ok toy_runtime \<and>
   valid [replicate 44 (CHR 0x00)] \<lparr>Data = 0, Len = 0, Cap = 44\<rparr> \<and>
   (\<exists>temp h' tw' cs.
      randText toy_runtime
        ([replicate 44 (CHR 0x00)],
         \<lparr>pkey = 1, table = Merchant, rnd = 42, columnTypes = [PkeyInt, Text, Text],
          scratch = \<lparr>Data = 0, Len = 0, Cap = 44\<rparr>, valuesBuf = nil\<rparr>)
        = Inr (temp, h', tw') \<and>
      bytes h' temp = [CHR 0x27] @ cs @ [CHR 0x27] \<and>
      length cs = 42 \<and> set cs \<subseteq> set textChars \<and>
      length (bytes h' temp) = 42 + 2)"
proof -
  have v: "valid [replicate 44 (CHR 0x00)] \<lparr>Data = 0, Len = 0, Cap = 44\<rparr>"
    by (simp add: valid_def)
  show ?thesis
    using toy_Intn_ok v
      randText_quoted [OF toy_Intn_ok, of "[replicate 44 (CHR 0x00)]"
        "\<lparr>pkey = 1, table = Merchant, rnd = 42, columnTypes = [PkeyInt, Text, Text],
          scratch = \<lparr>Data = 0, Len = 0, Cap = 44\<rparr>, valuesBuf = nil\<rparr>"]
    by simp
qed

section \<open>Foreign keys\<close>

lemma Intn_plus1_range:
  assumes "Intn_ok rt" and "Intn_plus1 rt n r = Inr (v, r')"
  shows "1 \<le>s v \<and> v \<le>s n"
proof -
  from assms(2) have pos: "0 < sint n"
    by (auto simp: Intn_plus1_def rand_Intn_def split: if_splits)
  obtain v0 where i: "Intn rt r n = (v0, r')" and v: "v = v0 + 1"
    using assms(2) pos by (cases "Intn rt r n") (auto simp: Intn_plus1_def rand_Intn_def)
  have b: "0 \<le> sint v0" "sint v0 < sint n"
    using Intn_okD [OF assms(1) pos, of r] i by simp_all
  have "sint v = sint v0 + 1" unfolding v using b(2) by (rule sint_plus1)
  then show ?thesis using b by (simp add: word_sle_eq)
qed

lemma Intn_plus1_total:
  assumes "Intn_ok rt" and "0 <s n"
  shows "\<exists>v r'. Intn_plus1 rt n r = Inr (v, r')"
  using assms(2)
  by (cases "Intn rt r n") (simp add: Intn_plus1_def rand_Intn_def word_sless_alt)

lemma fkeyTemp_range:
  assumes "Intn_ok rt" and "fkeyTemp rt g t (int i) r = Inr (v, r')"
  shows "fkey_in_range g t i v"
proof -
  have "\<And>n. Intn_plus1 rt n r = Inr (v, r') \<Longrightarrow> 1 \<le>s v \<and> v \<le>s n"
    using Intn_plus1_range [OF assms(1)] by blast
  then show ?thesis
    using assms(2) unfolding fkeyTemp_def fkey_in_range_def
    by (auto split: if_splits)
qed

lemma fkeyTemp_total:
  assumes "Intn_ok rt" and "fkey_ok g t i"
  shows "\<exists>v r'. fkeyTemp rt g t (int i) r = Inr (v, r')"
proof -
  have "\<And>n. 0 <s n \<Longrightarrow> \<exists>v r'. Intn_plus1 rt n r = Inr (v, r')"
    using Intn_plus1_total [OF assms(1)] by blast
  then show ?thesis
    using assms(2) unfolding fkeyTemp_def fkey_ok_def
    by (auto split: if_splits)
qed

lemma columnType_distinct [simp]:
  "FkeyInt \<noteq> PkeyInt" "PkeyInt \<noteq> FkeyInt" "IntCol \<noteq> PkeyInt" "IntCol \<noteq> FkeyInt"
  "Text \<noteq> PkeyInt" "Text \<noteq> FkeyInt" "Text \<noteq> IntCol" "Dec \<noteq> PkeyInt" "Dec \<noteq> FkeyInt"
  "Dec \<noteq> IntCol" "Dec \<noteq> Text" "PkeyInt \<noteq> Text" "PkeyInt \<noteq> IntCol" "PkeyInt \<noteq> Dec"
  by (simp_all add: columnType_defs)

lemma rowOf_length:
  "rowOf rt g t i cs s = Inr (xs, s') \<Longrightarrow> length xs = length cs"
  by (induction cs arbitrary: i s xs) (auto split: sum.splits)

lemma rowOf_fkeys:
  assumes "Intn_ok rt" and "rowOf rt g t i cs s = Inr (xs, s')"
    and "j < length cs" and "cs ! j = FkeyInt"
  shows "\<exists>v. xs ! j = Itoa v \<and> fkey_in_range g t (i + j) v"
  using assms(2-)
proof (induction cs arbitrary: i s xs j)
  case Nil
  then show ?case by simp
next
  case (Cons c cs)
  from Cons.prems(1) obtain x s1 ys where
    v: "valueOf rt g t i c s = Inr (x, s1)" and r: "rowOf rt g t (Suc i) cs s1 = Inr (ys, s')"
    and xs: "xs = x # ys"
    by (auto split: sum.splits)
  show ?case
  proof (cases j)
    case 0
    then have c: "c = FkeyInt" using Cons.prems(3) by simp
    obtain pk r0 where s: "s = (pk, r0)" by (cases s)
    from v c s obtain w r1 where f: "fkeyTemp rt g t (int i) r0 = Inr (w, r1)" and x: "x = Itoa w"
      by (auto simp: valueOf_def split: sum.splits)
    show ?thesis using fkeyTemp_range [OF assms(1) f] x xs 0 by auto
  next
    case (Suc j')
    then have "j' < length cs" "cs ! j' = FkeyInt" using Cons.prems(2,3) by simp_all
    from Cons.IH [OF r this] show ?thesis using xs Suc by simp
  qed
qed

lemma rowsOf_length:
  "rowsOf rt g t cts k s = Inr (rows, s') \<Longrightarrow> length rows = k"
  by (induction k arbitrary: s rows) (auto split: sum.splits)

lemma rowsOf_rows:
  "rowsOf rt g t cts k s = Inr (rows, s') \<Longrightarrow> row \<in> set rows
     \<Longrightarrow> \<exists>s1 s2. rowOf rt g t 0 cts s1 = Inr (row, s2)"
proof (induction k arbitrary: s rows)
  case 0
  then show ?case by simp
next
  case (Suc k)
  from Suc.prems(1) obtain r1 s1 rs where
    a: "rowOf rt g t 0 cts s = Inr (r1, s1)" and b: "rowsOf rt g t cts k s1 = Inr (rs, s')"
    and c: "rows = r1 # rs"
    by (auto split: sum.splits)
  show ?case
  proof (cases "row = r1")
    case True
    then show ?thesis using a by blast
  next
    case False
    then have "row \<in> set rs" using Suc.prems(2) c by simp
    then show ?thesis using Suc.IH [OF b] by blast
  qed
qed

lemma valueOf_total:
  assumes "Intn_ok rt"
    and "c = Text \<or> c = IntCol \<or> c = Dec \<or> c = PkeyInt \<or> (c = FkeyInt \<and> fkey_ok g t i)"
  shows "\<exists>x s'. valueOf rt g t i c s = Inr (x, s')"
proof -
  obtain pk r where s: "s = (pk, r)" by (cases s)
  have im: "0 < sint intMax" by (simp add: intMax_def)
  from assms(2) consider "c = Text" | "c = IntCol" | "c = Dec" | "c = PkeyInt"
    | "c = FkeyInt" "fkey_ok g t i" by blast
  then show ?thesis
  proof cases
    case 1
    then show ?thesis using drawText_shape [OF assms(1), of textLen r] s
      by (auto simp: valueOf_def)
  next
    case 2
    then show ?thesis using rand_Intn_ok [OF assms(1) im, of r] s
      by (auto simp: valueOf_def)
  next
    case 3
    then show ?thesis using s by (auto simp: valueOf_def split: prod.splits)
  next
    case 4
    then show ?thesis using s by (simp add: valueOf_def)
  next
    case 5
    then show ?thesis using fkeyTemp_total [OF assms(1) 5(2), of r] s
      by (auto simp: valueOf_def)
  qed
qed

lemma rowOf_total:
  assumes "Intn_ok rt" and "columns_ok g t i cs"
  shows "\<exists>xs s'. rowOf rt g t i cs s = Inr (xs, s')"
  using assms(2)
proof (induction cs arbitrary: i s)
  case Nil
  then show ?case by simp
next
  case (Cons c cs)
  from Cons.prems obtain x s1 where v: "valueOf rt g t i c s = Inr (x, s1)"
    using valueOf_total [OF assms(1), of c g t i s] by auto
  from Cons.prems Cons.IH [of "Suc i" s1] obtain xs s2 where
    "rowOf rt g t (Suc i) cs s1 = Inr (xs, s2)" by auto
  then show ?case using v by simp
qed

lemma rowsOf_total:
  assumes "Intn_ok rt" and "columns_ok g t 0 cts"
  shows "\<exists>rows s'. rowsOf rt g t cts k s = Inr (rows, s')"
proof (induction k arbitrary: s)
  case 0
  then show ?case by simp
next
  case (Suc k)
  obtain row s1 where r: "rowOf rt g t 0 cts s = Inr (row, s1)"
    using rowOf_total [OF assms, of s] by auto
  obtain rows s2 where "rowsOf rt g t cts k s1 = Inr (rows, s2)"
    using Suc [of s1] by auto
  then show ?case using r by simp
qed

lemma tableName_distinct:
  "Merchant \<noteq> Product" "Merchant \<noteq> Variant" "Merchant \<noteq> Store"
  "Merchant \<noteq> ProductInterleaved" "Merchant \<noteq> VariantInterleaved" "Merchant \<noteq> StoreInterleaved"
  "Product \<noteq> Variant" "Product \<noteq> Store"
  "Product \<noteq> ProductInterleaved" "Product \<noteq> VariantInterleaved" "Product \<noteq> StoreInterleaved"
  "Variant \<noteq> Store"
  "Variant \<noteq> ProductInterleaved" "Variant \<noteq> VariantInterleaved" "Variant \<noteq> StoreInterleaved"
  "Store \<noteq> ProductInterleaved" "Store \<noteq> VariantInterleaved" "Store \<noteq> StoreInterleaved"
  "ProductInterleaved \<noteq> VariantInterleaved" "ProductInterleaved \<noteq> StoreInterleaved"
  "VariantInterleaved \<noteq> StoreInterleaved"
  by (simp_all add: tableName_defs)

lemma tableName_nonempty:
  "Merchant \<noteq> []" "Product \<noteq> []" "Variant \<noteq> []" "Store \<noteq> []"
  "ProductInterleaved \<noteq> []" "VariantInterleaved \<noteq> []" "StoreInterleaved \<noteq> []"
  by (simp_all add: tableName_defs)

lemma variant_not_child_of_merchant:
  "t \<in> {Variant, VariantInterleaved} \<Longrightarrow> t \<notin> {Product, ProductInterleaved, Store, StoreInterleaved}"
  using tableName_distinct by auto


section \<open>What a call of genValues returns\<close>

lemma genValues_rows:
  assumes "writer_ok h tw" and "genValues rt g n (h, tw) = Inr (out, h', tw')"
  shows "\<exists>rows pk' r'.
           rowsOf rt g (table tw) (columnTypes tw) (nat (sint n)) (pkey tw, rnd tw)
             = Inr (rows, pk', r') \<and>
           bytes h' out = valuesText rows \<and> tw' = tw\<lparr>pkey := pk', rnd := r'\<rparr> \<and>
           wf h' tw out \<and> ext UNIV h h'"
  using genValues_refines [OF assms(1), of rt g n] assms(2)
  by (auto split: sum.splits)

lemma genValues_total:
  assumes "Intn_ok rt" and "writer_ok h tw" and "columns_ok g (table tw) 0 (columnTypes tw)"
  shows "\<exists>out h' tw'. genValues rt g n (h, tw) = Inr (out, h', tw')"
proof -
  obtain rows s' where
    "rowsOf rt g (table tw) (columnTypes tw) (nat (sint n)) (pkey tw, rnd tw) = Inr (rows, s')"
    using rowsOf_total [OF assms(1,3)] by blast
  then show ?thesis using genValues_refines [OF assms(2), of rt g n]
    by (cases s') auto
qed

text \<open>
  C2. Whatever \<open>genValues\<close> returns holds one row per tuple asked for, and in each row
  the value of every foreign-key column is the decimal form of an integer from 1 up to the
  row count of the parent table: \<open>nMerchants\<close> for the product and store tables (plain
  and interleaved) and for column 0 of the variant tables, \<open>nProducts\<close> for column 1 of
  the variant tables.
\<close>

theorem genValues_fkeys_in_range:
  assumes "Intn_ok rt" and "writer_ok h tw"
    and "genValues rt g n (h, tw) = Inr (out, h', tw')"
  shows "\<exists>rows.
           bytes h' out = valuesText rows \<and> length rows = nat (sint n) \<and>
           (\<forall>row \<in> set rows.
              length row = length (columnTypes tw) \<and>
              (\<forall>j < length (columnTypes tw).
                 columnTypes tw ! j = FkeyInt \<longrightarrow>
                   (\<exists>v. row ! j = Itoa v \<and> 1 \<le>s v \<and>
                      (table tw \<in> {Product, ProductInterleaved, Store, StoreInterleaved}
                         \<longrightarrow> v \<le>s nMerchants g) \<and>
                      (table tw \<in> {Variant, VariantInterleaved} \<and> j = 0
                         \<longrightarrow> v \<le>s nMerchants g) \<and>
                      (table tw \<in> {Variant, VariantInterleaved} \<and> j = 1
                         \<longrightarrow> v \<le>s nProducts g))))"
proof -
  from genValues_rows [OF assms(2,3)] obtain rows pk' r' where
    r: "rowsOf rt g (table tw) (columnTypes tw) (nat (sint n)) (pkey tw, rnd tw)
          = Inr (rows, pk', r')"
    and b: "bytes h' out = valuesText rows" by blast
  have "\<exists>v. row ! j = Itoa v \<and> 1 \<le>s v \<and>
          (table tw \<in> {Product, ProductInterleaved, Store, StoreInterleaved}
             \<longrightarrow> v \<le>s nMerchants g) \<and>
          (table tw \<in> {Variant, VariantInterleaved} \<and> j = 0 \<longrightarrow> v \<le>s nMerchants g) \<and>
          (table tw \<in> {Variant, VariantInterleaved} \<and> j = 1 \<longrightarrow> v \<le>s nProducts g)"
    if row: "row \<in> set rows" and j: "j < length (columnTypes tw)"
      and f: "columnTypes tw ! j = FkeyInt" for row j
  proof -
    obtain s1 s2 where "rowOf rt g (table tw) 0 (columnTypes tw) s1 = Inr (row, s2)"
      using rowsOf_rows [OF r row] by blast
    from rowOf_fkeys [OF assms(1) this j f]
    obtain v where v: "row ! j = Itoa v" and i: "fkey_in_range g (table tw) j v" by auto
    have "1 \<le>s v" using i by (simp add: fkey_in_range_def)
    moreover have "v \<le>s nMerchants g"
      if "table tw \<in> {Product, ProductInterleaved, Store, StoreInterleaved}"
      using i that by (simp add: fkey_in_range_def)
    moreover have "v \<le>s nMerchants g" if "table tw \<in> {Variant, VariantInterleaved} \<and> j = 0"
      using i that variant_not_child_of_merchant [of "table tw"]
      by (auto simp: fkey_in_range_def split: if_splits)
    moreover have "v \<le>s nProducts g" if "table tw \<in> {Variant, VariantInterleaved} \<and> j = 1"
      using i that variant_not_child_of_merchant [of "table tw"]
      by (auto simp: fkey_in_range_def split: if_splits)
    ultimately show ?thesis using v by blast
  qed
  moreover have "length row = length (columnTypes tw)" if row: "row \<in> set rows" for row
  proof -
    obtain s1 s2 where "rowOf rt g (table tw) 0 (columnTypes tw) s1 = Inr (row, s2)"
      using rowsOf_rows [OF r row] by blast
    then show ?thesis by (rule rowOf_length)
  qed
  ultimately show ?thesis using b rowsOf_length [OF r] by blast
qed

lemma lookup_tableTypes_init:
  "lookupOr [] tableTypes_init Merchant = [PkeyInt, Text, Text]"
  "lookupOr [] tableTypes_init Product = [FkeyInt, PkeyInt, Text, Text]"
  "lookupOr [] tableTypes_init Variant = [FkeyInt, FkeyInt, PkeyInt, Text, IntCol, Dec]"
  "lookupOr [] tableTypes_init Store = [FkeyInt, PkeyInt, Text, Text]"
  by (simp_all add: lookupOr_def tableTypes_init_def tableName_distinct)

theorem genValues_fkeys_in_range_witness:
  "Intn_ok toy_runtime \<and>
   writer_ok (fst (newWriter toy_runtime (package_vars 42 10 100 200 30) Product []))
     (snd (newWriter toy_runtime (package_vars 42 10 100 200 30) Product [])) \<and>
   (\<exists>out h' tw'.
      genValues toy_runtime (package_vars 42 10 100 200 30) 3
        (newWriter toy_runtime (package_vars 42 10 100 200 30) Product [])
        = Inr (out, h', tw') \<and>
      (\<exists>rows.
         bytes h' out = valuesText rows \<and> length rows = 3 \<and>
         (\<forall>row \<in> set rows. \<forall>j < 4.
            [FkeyInt, PkeyInt, Text, Text] ! j = FkeyInt \<longrightarrow>
              (\<exists>v. row ! j = Itoa v \<and> 1 \<le>s v \<and> v \<le>s 10))))"
proof -
  define g where "g = package_vars 42 10 100 200 30"
  obtain h tw where w: "newWriter toy_runtime g Product [] = (h, tw)"
    by (cases "newWriter toy_runtime g Product []")
  have ok: "writer_ok h tw" using newWriter_ok [OF w] .
  have t: "table tw = Product" using newWriter_fields(2) [OF w] .
  have c: "columnTypes tw = [FkeyInt, PkeyInt, Text, Text]"
    using newWriter_fields(4) [OF w] by (simp add: g_def package_vars_def lookup_tableTypes_init)
  have m: "nMerchants g = 10" by (simp add: g_def package_vars_def)
  have "columns_ok g (table tw) 0 (columnTypes tw)"
    by (simp add: t c fkey_ok_def m word_sless_alt)
  from genValues_total [OF toy_Intn_ok ok this, of 3]
  obtain out h' tw' where gv: "genValues toy_runtime g 3 (h, tw) = Inr (out, h', tw')" by blast
  from genValues_fkeys_in_range [OF toy_Intn_ok ok gv]
  obtain rows where b: "bytes h' out = valuesText rows" and l: "length rows = nat (sint (3 :: go_int))"
    and f: "\<forall>row \<in> set rows. \<forall>j < length (columnTypes tw).
              columnTypes tw ! j = FkeyInt \<longrightarrow>
                (\<exists>v. row ! j = Itoa v \<and> 1 \<le>s v \<and>
                   (table tw \<in> {Product, ProductInterleaved, Store, StoreInterleaved}
                      \<longrightarrow> v \<le>s nMerchants g) \<and>
                   (table tw \<in> {Variant, VariantInterleaved} \<and> j = 0 \<longrightarrow> v \<le>s nMerchants g) \<and>
                   (table tw \<in> {Variant, VariantInterleaved} \<and> j = 1 \<longrightarrow> v \<le>s nProducts g))"
    by blast
  have f': "\<forall>row \<in> set rows. \<forall>j < 4.
              [FkeyInt, PkeyInt, Text, Text] ! j = FkeyInt \<longrightarrow>
                (\<exists>v. row ! j = Itoa v \<and> 1 \<le>s v \<and> v \<le>s 10)"
  proof (intro ballI allI impI)
    fix row j
    assume row: "row \<in> set rows" and j: "j < (4 :: nat)"
      and k: "[FkeyInt, PkeyInt, Text, Text] ! j = FkeyInt"
    have "j < length (columnTypes tw)" using j by (simp add: c)
    moreover have "columnTypes tw ! j = FkeyInt" using k by (simp only: c)
    ultimately obtain v where "row ! j = Itoa v" and "1 \<le>s v"
      and "table tw \<in> {Product, ProductInterleaved, Store, StoreInterleaved}
             \<longrightarrow> v \<le>s nMerchants g"
      using f row by blast
    then show "\<exists>v. row ! j = Itoa v \<and> 1 \<le>s v \<and> v \<le>s 10"
      using t m by auto
  qed
  have l': "length rows = 3" using l by simp
  have "\<exists>out h' tw'.
      genValues toy_runtime g 3 (h, tw) = Inr (out, h', tw') \<and>
      (\<exists>rows.
         bytes h' out = valuesText rows \<and> length rows = 3 \<and>
         (\<forall>row \<in> set rows. \<forall>j < 4.
            [FkeyInt, PkeyInt, Text, Text] ! j = FkeyInt \<longrightarrow>
              (\<exists>v. row ! j = Itoa v \<and> 1 \<le>s v \<and> v \<le>s 10)))"
    using gv b l' f' by blast
  then show ?thesis
    unfolding g_def [symmetric] w fst_conv snd_conv
    using toy_Intn_ok ok by (intro conjI)
qed

section \<open>Rows, batches and primary keys\<close>

lemma rowsOf_row_length:
  assumes "rowsOf rt g t cts k s = Inr (rows, s')" and "row \<in> set rows"
  shows "length row = length cts"
proof -
  obtain s1 s2 where "rowOf rt g t 0 cts s1 = Inr (row, s2)"
    using rowsOf_rows [OF assms] by blast
  then show ?thesis by (rule rowOf_length)
qed

lemma rowsOf_add:
  "rowsOf rt g t cts (a + b) s =
     (case rowsOf rt g t cts a s of
        Inl e \<Rightarrow> Inl e
      | Inr (xs, s') \<Rightarrow>
          (case rowsOf rt g t cts b s' of
             Inl e \<Rightarrow> Inl e
           | Inr (ys, s'') \<Rightarrow> Inr (xs @ ys, s'')))"
  by (induction a arbitrary: s) (auto split: sum.splits)

lemma batchesOf_concat:
  assumes "batchesOf rt g t cts ns s = Inr (bs, s')"
  shows "rowsOf rt g t cts (sum_list ns) s = Inr (concat bs, s')" and "map length bs = ns"
  using assms
proof (induction ns arbitrary: s bs)
  case Nil
  { case 1 then show ?case by simp }
  { case 2 then show ?case by simp }
next
  case (Cons n ns)
  { case 1
    then obtain rows s1 bs' where a: "rowsOf rt g t cts n s = Inr (rows, s1)"
      and b: "batchesOf rt g t cts ns s1 = Inr (bs', s')" and c: "bs = rows # bs'"
      by (auto split: sum.splits)
    show ?case using a Cons.IH(1) [OF b] c by (simp add: rowsOf_add) }
  { case 2
    then obtain rows s1 bs' where a: "rowsOf rt g t cts n s = Inr (rows, s1)"
      and b: "batchesOf rt g t cts ns s1 = Inr (bs', s')" and c: "bs = rows # bs'"
      by (auto split: sum.splits)
    show ?case using rowsOf_length [OF a] Cons.IH(2) [OF b] c by simp }
qed

lemma batchesOf_total:
  assumes "Intn_ok rt" and "columns_ok g t 0 cts"
  shows "\<exists>bs s'. batchesOf rt g t cts ns s = Inr (bs, s')"
proof (induction ns arbitrary: s)
  case Nil
  then show ?case by simp
next
  case (Cons n ns)
  obtain rows s1 where r: "rowsOf rt g t cts n s = Inr (rows, s1)"
    using rowsOf_total [OF assms] by blast
  obtain bs s2 where "batchesOf rt g t cts ns s1 = Inr (bs, s2)"
    using Cons [of s1] by blast
  then show ?case using r by simp
qed

lemma valueOf_pkey:
  assumes "valueOf rt g t i c (pk, r) = Inr (x, pk', r')"
  shows "if c = PkeyInt then x = Itoa pk \<and> pk' = pk + 1 else pk' = pk"
  using assms by (auto simp: valueOf_def split: if_splits sum.splits prod.splits)

lemma upt_shift: "map f [0..<Suc m] = f 0 # map (\<lambda>j. f (Suc j)) [0..<m]"
  by (simp add: upt_conv_Cons map_Suc_upt [symmetric] del: upt_Suc)

lemma rowOf_pkeys:
  assumes "rowOf rt g t i cs (pk, r) = Inr (xs, pk', r')"
  shows "pkeyCells cs xs = map (\<lambda>j. Itoa (pk + of_nat j)) [0..<count_list cs PkeyInt]"
    and "pk' = pk + of_nat (count_list cs PkeyInt)"
  using assms
proof (induction cs arbitrary: i pk r xs)
  case Nil
  { case 1 then show ?case by (simp add: pkeyCells_def) }
  { case 2 then show ?case by simp }
next
  case (Cons c cs)
  { case 1
    then obtain x pk1 r1 ys where v: "valueOf rt g t i c (pk, r) = Inr (x, pk1, r1)"
      and rr: "rowOf rt g t (Suc i) cs (pk1, r1) = Inr (ys, pk', r')" and xs: "xs = x # ys"
      by (auto split: sum.splits)
    note ih = Cons.IH(1) [OF rr]
    show ?case
    proof (cases "c = PkeyInt")
      case True
      then have "x = Itoa pk" "pk1 = pk + 1" using valueOf_pkey [OF v] by simp_all
      then show ?thesis using ih xs True
        by (simp add: pkeyCells_def upt_shift add.assoc del: upt_Suc)
    next
      case False
      then have "pk1 = pk" using valueOf_pkey [OF v] by simp
      then show ?thesis using ih xs False by (simp add: pkeyCells_def)
    qed }
  { case 2
    then obtain x pk1 r1 ys where v: "valueOf rt g t i c (pk, r) = Inr (x, pk1, r1)"
      and rr: "rowOf rt g t (Suc i) cs (pk1, r1) = Inr (ys, pk', r')"
      by (auto split: sum.splits)
    show ?case using valueOf_pkey [OF v] Cons.IH(2) [OF rr] by (auto split: if_splits) }
qed

lemma rowsOf_pkeys:
  assumes "rowsOf rt g t cts k (pk, r) = Inr (rows, pk', r')"
  shows "concat (map (pkeyCells cts) rows)
           = map (\<lambda>j. Itoa (pk + of_nat j)) [0..<k * count_list cts PkeyInt]"
    and "pk' = pk + of_nat (k * count_list cts PkeyInt)"
  using assms
proof (induction k arbitrary: pk r rows)
  case 0
  { case 1 then show ?case by simp }
  { case 2 then show ?case by simp }
next
  case (Suc k)
  define m where "m = count_list cts PkeyInt"
  { case 1
    then obtain row pk1 r1 rs where a: "rowOf rt g t 0 cts (pk, r) = Inr (row, pk1, r1)"
      and b: "rowsOf rt g t cts k (pk1, r1) = Inr (rs, pk', r')" and c: "rows = row # rs"
      by (auto split: sum.splits)
    have p1: "pk1 = pk + of_nat m" using rowOf_pkeys(2) [OF a] by (simp add: m_def)
    have "[0..<Suc k * m] = [0..<m] @ map (\<lambda>j. m + j) [0..<k * m]"
      by (simp add: upt_add_eq_append [of 0 m "k * m", simplified] map_add_upt add.commute)
    then show ?case
      using rowOf_pkeys(1) [OF a] Suc.IH(1) [OF b] c p1
      by (simp add: m_def [symmetric] o_def add.assoc) }
  { case 2
    then obtain row pk1 r1 rs where a: "rowOf rt g t 0 cts (pk, r) = Inr (row, pk1, r1)"
      and b: "rowsOf rt g t cts k (pk1, r1) = Inr (rs, pk', r')"
      by (auto split: sum.splits)
    show ?case using rowOf_pkeys(2) [OF a] Suc.IH(2) [OF b] by (simp add: add.assoc) }
qed

lemma Itoa_of_nat:
  assumes "int k < 2 ^ 63"
  shows "Itoa (of_nat k) = digitsOf k"
  using sint_of_nat_small [OF assms] by (simp add: Itoa_def)

section \<open>Batches\<close>

lemma insertBatch_refines:
  assumes "writer_ok h tw"
  shows "case rowsOf rt g (table tw) (columnTypes tw) (nat (sint n)) (pkey tw, rnd tw) of
           Inl e \<Rightarrow> insertBatch rt g n db (h, tw) = Inl e
         | Inr (rows, pk', r') \<Rightarrow>
             (case Exec rt db (stmtText g (table tw) rows) of
                Some err \<Rightarrow> insertBatch rt g n db (h, tw) = Inl (Fatal err)
              | None \<Rightarrow>
                  (\<exists>v' h'. insertBatch rt g n db (h, tw)
                       = Inr (db @ [stmtText g (table tw) rows], h',
                              tw\<lparr>pkey := pk', rnd := r', valuesBuf := v'\<rparr>) \<and>
                     writer_ok h' (tw\<lparr>pkey := pk', rnd := r', valuesBuf := v'\<rparr>) \<and>
                     ext UNIV h h'))"
proof (cases "rowsOf rt g (table tw) (columnTypes tw) (nat (sint n)) (pkey tw, rnd tw)")
  case (Inl e)
  then show ?thesis using genValues_refines [OF assms, of rt g n]
    by (simp add: insertBatch_def)
next
  case (Inr p)
  obtain rows pk' r' where p: "p = (rows, pk', r')" by (cases p)
  from genValues_refines [OF assms, of rt g n] Inr p obtain v' h' where
    gv: "genValues rt g n (h, tw) = Inr (v', h', tw\<lparr>pkey := pk', rnd := r'\<rparr>)"
    and b: "bytes h' v' = valuesText rows" and w: "wf h' tw v'" and e: "ext UNIV h h'"
    by auto
  have ok: "writer_ok h' (tw\<lparr>pkey := pk', rnd := r', valuesBuf := v'\<rparr>)"
    using w by (simp add: writer_ok_def wf_def)
  show ?thesis
    using Inr p gv b ok e
    by (auto simp: insertBatch_def stmtText_def Let_def split: option.splits)
qed

lemma insertBatches_refines:
  assumes "writer_ok h tw"
  shows "case submitOf rt g (table tw) (columnTypes tw) (map (\<lambda>n. nat (sint n)) ns) db
                (pkey tw, rnd tw) of
           Inl e \<Rightarrow> insertBatches rt g ns db (h, tw) = Inl e
         | Inr (db', pk', r') \<Rightarrow>
             (\<exists>h' tw'. insertBatches rt g ns db (h, tw) = Inr (db', h', tw') \<and>
                pkey tw' = pk' \<and> rnd tw' = r' \<and> table tw' = table tw \<and>
                columnTypes tw' = columnTypes tw \<and> writer_ok h' tw' \<and> ext UNIV h h')"
  using assms
proof (induction ns arbitrary: db h tw)
  case Nil
  then show ?case by (simp add: ext_refl)
next
  case (Cons n ns)
  note ib = insertBatch_refines [OF Cons.prems, of rt g n db]
  show ?case
  proof (cases "rowsOf rt g (table tw) (columnTypes tw) (nat (sint n)) (pkey tw, rnd tw)")
    case (Inl e)
    then show ?thesis using ib by simp
  next
    case (Inr p)
    obtain rows pk1 r1 where p: "p = (rows, pk1, r1)" by (cases p)
    show ?thesis
    proof (cases "Exec rt db (stmtText g (table tw) rows)")
      case (Some err)
      then show ?thesis using ib Inr p by simp
    next
      case None
      from ib Inr p None obtain v1 h1 where
        b: "insertBatch rt g n db (h, tw)
              = Inr (db @ [stmtText g (table tw) rows], h1,
                     tw\<lparr>pkey := pk1, rnd := r1, valuesBuf := v1\<rparr>)"
        and ok: "writer_ok h1 (tw\<lparr>pkey := pk1, rnd := r1, valuesBuf := v1\<rparr>)"
        and e: "ext UNIV h h1" by auto
      define tw1 where "tw1 = tw\<lparr>pkey := pk1, rnd := r1, valuesBuf := v1\<rparr>"
      have f: "table tw1 = table tw" "columnTypes tw1 = columnTypes tw" "pkey tw1 = pk1"
        "rnd tw1 = r1" by (simp_all add: tw1_def)
      note ih = Cons.IH [OF ok [folded tw1_def], of "db @ [stmtText g (table tw) rows]",
          unfolded f]
      show ?thesis
      proof (cases "submitOf rt g (table tw) (columnTypes tw) (map (\<lambda>n. nat (sint n)) ns)
                      (db @ [stmtText g (table tw) rows]) (pk1, r1)")
        case (Inl e)
        then show ?thesis using ih b Inr p None by (simp add: tw1_def)
      next
        case r: (Inr q)
        obtain db' pk' r' where q: "q = (db', pk', r')" by (cases q)
        from ih r q obtain h' tw' where
          "insertBatches rt g ns (db @ [stmtText g (table tw) rows]) (h1, tw1) = Inr (db', h', tw')"
          and "pkey tw' = pk'" "rnd tw' = r'" "table tw' = table tw"
          "columnTypes tw' = columnTypes tw" "writer_ok h' tw'" and e': "ext UNIV h1 h'"
          by auto
        then show ?thesis
          using b Inr p None r q ext_UNIV_trans [OF e e'] by (simp add: tw1_def)
      qed
    qed
  qed
qed

lemma submitOf_accepts:
  assumes "db_accepts rt"
  shows "submitOf rt g t cts ns db s =
           (case batchesOf rt g t cts ns s of
              Inl e \<Rightarrow> Inl e
            | Inr (bs, s') \<Rightarrow> Inr (db @ map (stmtText g t) bs, s'))"
  using assms
  by (induction ns arbitrary: db s) (auto simp: db_accepts_def split: sum.splits)

lemma submitOf_Inr:
  assumes "submitOf rt g t cts ns db s = Inr (db', s')"
  shows "\<exists>bs. batchesOf rt g t cts ns s = Inr (bs, s') \<and> db' = db @ map (stmtText g t) bs"
  using assms
proof (induction ns arbitrary: db s)
  case Nil
  then show ?case by simp
next
  case (Cons n ns)
  from Cons.prems obtain rows s1 where a: "rowsOf rt g t cts n s = Inr (rows, s1)"
    and b: "submitOf rt g t cts ns (db @ [stmtText g t rows]) s1 = Inr (db', s')"
    by (auto split: sum.splits option.splits)
  from Cons.IH [OF b] obtain bs where "batchesOf rt g t cts ns s1 = Inr (bs, s')"
    and "db' = (db @ [stmtText g t rows]) @ map (stmtText g t) bs" by blast
  then show ?case using a by simp
qed

lemma insertBatches_batches:
  assumes "writer_ok h tw" and "insertBatches rt g ns db (h, tw) = Inr (db', h', tw')"
  shows "\<exists>bs. batchesOf rt g (table tw) (columnTypes tw) (map (\<lambda>n. nat (sint n)) ns)
                 (pkey tw, rnd tw) = Inr (bs, pkey tw', rnd tw') \<and>
              db' = db @ map (stmtText g (table tw)) bs \<and> writer_ok h' tw' \<and>
              table tw' = table tw \<and> columnTypes tw' = columnTypes tw \<and> ext UNIV h h'"
proof -
  from insertBatches_refines [OF assms(1), of rt g ns db] assms(2)
  have s: "submitOf rt g (table tw) (columnTypes tw) (map (\<lambda>n. nat (sint n)) ns) db
             (pkey tw, rnd tw) = Inr (db', pkey tw', rnd tw')"
    and r: "writer_ok h' tw'" "table tw' = table tw" "columnTypes tw' = columnTypes tw"
      "ext UNIV h h'"
    by (auto split: sum.splits)
  from submitOf_Inr [OF s] show ?thesis using r by blast
qed

lemma insertBatches_total:
  assumes "Intn_ok rt" and "db_accepts rt" and "writer_ok h tw"
    and "columns_ok g (table tw) 0 (columnTypes tw)"
  shows "\<exists>db' h' tw'. insertBatches rt g ns db (h, tw) = Inr (db', h', tw')"
proof -
  obtain bs s' where
    "batchesOf rt g (table tw) (columnTypes tw) (map (\<lambda>n. nat (sint n)) ns) (pkey tw, rnd tw)
       = Inr (bs, s')"
    using batchesOf_total [OF assms(1,4)] by blast
  then have "submitOf rt g (table tw) (columnTypes tw) (map (\<lambda>n. nat (sint n)) ns) db
               (pkey tw, rnd tw) = Inr (db @ map (stmtText g (table tw)) bs, s')"
    by (simp add: submitOf_accepts [OF assms(2)])
  then show ?thesis using insertBatches_refines [OF assms(3), of rt g ns db]
    by (cases s') auto
qed

text \<open>
  C10. Whatever the buffer \<open>valuesBuf\<close> held before, the bytes that \<open>genValues\<close> returns
  are exactly the serialization of the rows it generated in this call: as many
  parenthesized tuples as asked for, joined by single commas, each with one value per column
  of the writer's column list, joined by single commas.
\<close>

theorem genValues_output:
  assumes "writer_ok h tw" and "genValues rt g n (h, tw) = Inr (out, h', tw')"
  shows "\<exists>rows.
           rowsOf rt g (table tw) (columnTypes tw) (nat (sint n)) (pkey tw, rnd tw)
             = Inr (rows, pkey tw', rnd tw') \<and>
           bytes h' out = joinFrom False (map (\<lambda>row. ''('' @ joinFrom False row @ '')'') rows) \<and>
           length rows = nat (sint n) \<and>
           (\<forall>row \<in> set rows. length row = length (columnTypes tw))"
proof -
  from genValues_rows [OF assms] obtain rows pk' r' where
    r: "rowsOf rt g (table tw) (columnTypes tw) (nat (sint n)) (pkey tw, rnd tw)
          = Inr (rows, pk', r')"
    and b: "bytes h' out = valuesText rows" and t: "tw' = tw\<lparr>pkey := pk', rnd := r'\<rparr>"
    by blast
  have "\<forall>row \<in> set rows. length row = length (columnTypes tw)"
    using rowsOf_row_length [OF r] by blast
  moreover have "valuesText rows = joinFrom False (map (\<lambda>row. ''('' @ joinFrom False row @ '')'') rows)"
    by (simp add: valuesText_def tupleText_def [abs_def])
  ultimately show ?thesis using r b t rowsOf_length [OF r] by auto
qed

theorem genValues_output_witness:
  "writer_ok [replicate 44 (CHR 0x00), ''(99,stale)'']
     \<lparr>pkey = 7, table = Merchant, rnd = 42 :: nat, columnTypes = [PkeyInt, Text, Text],
      scratch = \<lparr>Data = 0, Len = 0, Cap = 44\<rparr>, valuesBuf = \<lparr>Data = 1, Len = 10, Cap = 10\<rparr>\<rparr> \<and>
   (\<exists>out h' tw'.
      genValues toy_runtime (package_vars 42 10 100 200 30) 2
        ([replicate 44 (CHR 0x00), ''(99,stale)''],
         \<lparr>pkey = 7, table = Merchant, rnd = 42, columnTypes = [PkeyInt, Text, Text],
          scratch = \<lparr>Data = 0, Len = 0, Cap = 44\<rparr>,
          valuesBuf = \<lparr>Data = 1, Len = 10, Cap = 10\<rparr>\<rparr>) = Inr (out, h', tw') \<and>
      (\<exists>rows.
         bytes h' out = joinFrom False (map (\<lambda>row. ''('' @ joinFrom False row @ '')'') rows) \<and>
         length rows = 2 \<and> list_all (\<lambda>row. length row = 3) rows))"
proof -
  define h where "h = [replicate 44 (CHR 0x00), ''(99,stale)'']"
  define tw :: "nat tableWriter" where
    "tw = \<lparr>pkey = 7, table = Merchant, rnd = 42, columnTypes = [PkeyInt, Text, Text],
           scratch = \<lparr>Data = 0, Len = 0, Cap = 44\<rparr>,
           valuesBuf = \<lparr>Data = 1, Len = 10, Cap = 10\<rparr>\<rparr>"
  define g where "g = package_vars 42 10 100 200 30"
  have ok: "writer_ok h tw"
    by (simp add: writer_ok_def wf_def valid_def footprint_def h_def tw_def)
  have "columns_ok g (table tw) 0 (columnTypes tw)" by (simp add: tw_def)
  from genValues_total [OF toy_Intn_ok ok this, of 2]
  obtain out h' tw' where gv: "genValues toy_runtime g 2 (h, tw) = Inr (out, h', tw')" by blast
  from genValues_output [OF ok gv] obtain rows where
    b: "bytes h' out = joinFrom False (map (\<lambda>row. ''('' @ joinFrom False row @ '')'') rows)"
    and l: "length rows = nat (sint (2 :: go_int))"
    and c: "\<forall>row \<in> set rows. length row = length (columnTypes tw)" by blast
  have "length rows = 2" using l by simp
  moreover have "list_all (\<lambda>row. length row = 3) rows"
    using c by (simp add: tw_def list_all_iff)
  ultimately have "\<exists>out h' tw'.
      genValues toy_runtime g 2 (h, tw) = Inr (out, h', tw') \<and>
      (\<exists>rows.
         bytes h' out = joinFrom False (map (\<lambda>row. ''('' @ joinFrom False row @ '')'') rows) \<and>
         length rows = 2 \<and> list_all (\<lambda>row. length row = 3) rows)"
    using gv b by blast
  then show ?thesis using ok unfolding h_def tw_def g_def by (intro conjI)
qed

section \<open>The catalog\<close>

lemma interleaveCopy_copies:
  "interleaveCopy ks m t = Some v \<Longrightarrow> \<exists>t0. m t0 = Some v"
proof (induction ks arbitrary: m)
  case Nil
  then show ?case by auto
next
  case (Cons k ks)
  from Cons.IH [OF Cons.prems [simplified]] show ?case
    by (auto split: option.splits if_splits)
qed

lemma tableTypes_init_cases:
  assumes "tableTypes_init t = Some cts"
  shows "cts = [PkeyInt, Text, Text] \<or> cts = [FkeyInt, PkeyInt, Text, Text] \<or>
         cts = [FkeyInt, FkeyInt, PkeyInt, Text, IntCol, Dec]"
  using assms by (auto simp: tableTypes_init_def split: if_splits)

lemma catalog_one_pkey:
  assumes "interleaveCopy ks tableTypes_init t = Some cts"
  shows "count_list cts PkeyInt = 1"
proof -
  obtain t0 where "tableTypes_init t0 = Some cts"
    using interleaveCopy_copies [OF assms] by blast
  from tableTypes_init_cases [OF this] show ?thesis by auto
qed

lemma rowOf_pkeys_length:
  assumes "rowOf rt g t i cs s = Inr (xs, s')"
  shows "length (pkeyCells cs xs) = count_list cs PkeyInt"
proof -
  obtain pk r pk' r' where "s = (pk, r)" "s' = (pk', r')" by (cases s, cases s')
  then show ?thesis using rowOf_pkeys(1) [of rt g t i cs pk r xs pk' r'] assms by simp
qed

text \<open>
  C9. Every column list of the catalog, as declared and as \<open>initDDL\<close> copies it to the
  interleaved names in whatever order the map is visited, has exactly one \<open>PkeyInt\<close>
  column. So a call \<open>genValues(n)\<close> of a writer of such a table moves the counter from
  \<open>pkey\<close> to \<open>pkey + n\<close>, and the primary keys of its rows are \<open>pkey\<close>,
  \<open>pkey + 1\<close>, ..., one per row: the next batch starts where this one ended.
\<close>

theorem catalog_pkey_advance:
  assumes "interleaveCopy order tableTypes_init t = Some (columnTypes tw)"
    and "writer_ok h tw" and "0 \<le>s n"
    and "genValues rt g n (h, tw) = Inr (out, h', tw')"
  shows "count_list (columnTypes tw) PkeyInt = 1 \<and>
         pkey tw' = pkey tw + n \<and>
         (\<exists>rows. bytes h' out = valuesText rows \<and> length rows = nat (sint n) \<and>
            map (pkeyCells (columnTypes tw)) rows
              = map (\<lambda>j. [Itoa (pkey tw + of_nat j)]) [0..<nat (sint n)])"
proof -
  have one: "count_list (columnTypes tw) PkeyInt = 1"
    using catalog_one_pkey [OF assms(1)] .
  from genValues_rows [OF assms(2,4)] obtain rows pk' r' where
    r: "rowsOf rt g (table tw) (columnTypes tw) (nat (sint n)) (pkey tw, rnd tw)
          = Inr (rows, pk', r')"
    and b: "bytes h' out = valuesText rows" and t: "tw' = tw\<lparr>pkey := pk', rnd := r'\<rparr>"
    by blast
  have n: "of_nat (nat (sint n)) = n" using assms(3) by (simp add: word_sle_eq)
  have adv: "pkey tw' = pkey tw + n"
    using rowsOf_pkeys(2) [OF r] one t n by simp
  have cc: "concat (map (pkeyCells (columnTypes tw)) rows)
              = map (\<lambda>j. Itoa (pkey tw + of_nat j)) [0..<nat (sint n)]"
    using rowsOf_pkeys(1) [OF r] one by simp
  have len1: "\<forall>c \<in> set (map (pkeyCells (columnTypes tw)) rows). length c = 1"
  proof
    fix c assume "c \<in> set (map (pkeyCells (columnTypes tw)) rows)"
    then obtain row where row: "row \<in> set rows" and c: "c = pkeyCells (columnTypes tw) row"
      by auto
    obtain s1 s2 where "rowOf rt g (table tw) 0 (columnTypes tw) s1 = Inr (row, s2)"
      using rowsOf_rows [OF r row] by blast
    from rowOf_pkeys_length [OF this] show "length c = 1" using one c by simp
  qed
  have single: "xss = map (\<lambda>x. [x]) (concat xss)" if "\<forall>c \<in> set xss. length c = 1"
    for xss :: "string list list"
    using that
  proof (induction xss)
    case Nil
    then show ?case by simp
  next
    case (Cons c xss)
    then obtain x where "c = [x]" by (cases c) auto
    then show ?case using Cons by simp
  qed
  have "map (pkeyCells (columnTypes tw)) rows
          = map (\<lambda>j. [Itoa (pkey tw + of_nat j)]) [0..<nat (sint n)]"
    using single [OF len1] cc by (simp add: o_def)
  then show ?thesis using one adv b rowsOf_length [OF r] by blast
qed


lemma initDDL_tableTypes_ProductInterleaved:
  "lookupOr [] (tableTypes (initDDL [Merchant, Product, Variant, Store] so ro
      (package_vars sd m p v s))) ProductInterleaved = [FkeyInt, PkeyInt, Text, Text]"
  "interleaveCopy [Merchant, Product, Variant, Store] tableTypes_init ProductInterleaved
     = Some [FkeyInt, PkeyInt, Text, Text]"
  by (simp_all add: initDDL_def package_vars_def lookupOr_def interleaveName_def
      tableTypes_init_def tableName_distinct tableName_distinct [symmetric] tableName_nonempty
      tableName_nonempty [symmetric])

theorem catalog_pkey_advance_witness:
  "interleaveCopy [Merchant, Product, Variant, Store] tableTypes_init ProductInterleaved
     = Some [FkeyInt, PkeyInt, Text, Text] \<and>
   0 \<le>s (3 :: go_int) \<and>
   (\<exists>h tw out h' tw'.
      newWriter toy_runtime
        (initDDL [Merchant, Product, Variant, Store] [] [] (package_vars 42 10 100 200 30))
        ProductInterleaved [] = (h, tw) \<and>
      writer_ok h tw \<and>
      genValues toy_runtime
        (initDDL [Merchant, Product, Variant, Store] [] [] (package_vars 42 10 100 200 30))
        3 (h, tw) = Inr (out, h', tw') \<and>
      count_list (columnTypes tw) PkeyInt = 1 \<and>
      pkey tw' = 4 \<and>
      (\<exists>rows. bytes h' out = valuesText rows \<and> length rows = 3 \<and>
         map (pkeyCells (columnTypes tw)) rows = [[''1''], [''2''], [''3'']]))"
proof -
  define g where
    "g = initDDL [Merchant, Product, Variant, Store] [] [] (package_vars 42 10 100 200 30)"
  obtain h tw where w: "newWriter toy_runtime g ProductInterleaved [] = (h, tw)"
    by (cases "newWriter toy_runtime g ProductInterleaved []")
  have ok: "writer_ok h tw" using newWriter_ok [OF w] .
  have t: "table tw = ProductInterleaved" and p: "pkey tw = 1"
    using newWriter_fields [OF w] by simp_all
  have c: "columnTypes tw = [FkeyInt, PkeyInt, Text, Text]"
    using newWriter_fields(4) [OF w]
    by (simp add: g_def initDDL_tableTypes_ProductInterleaved(1))
  have cat: "interleaveCopy [Merchant, Product, Variant, Store] tableTypes_init ProductInterleaved
               = Some (columnTypes tw)"
    by (simp only: c initDDL_tableTypes_ProductInterleaved(2))
  have m: "nMerchants g = 10" by (simp add: g_def initDDL_def package_vars_def)
  have n3: "0 \<le>s (3 :: go_int)" by (simp add: word_sle_eq)
  have "columns_ok g (table tw) 0 (columnTypes tw)"
    by (simp add: t c fkey_ok_def m word_sless_alt)
  from genValues_total [OF toy_Intn_ok ok this, of 3]
  obtain out h' tw' where gv: "genValues toy_runtime g 3 (h, tw) = Inr (out, h', tw')" by blast
  from catalog_pkey_advance [OF cat ok n3 gv] obtain rows where
    one: "count_list (columnTypes tw) PkeyInt = 1" and adv: "pkey tw' = pkey tw + 3"
    and b: "bytes h' out = valuesText rows" and l: "length rows = nat (sint (3 :: go_int))"
    and k: "map (pkeyCells (columnTypes tw)) rows
              = map (\<lambda>j. [Itoa (pkey tw + of_nat j)]) [0..<nat (sint (3 :: go_int))]"
    by blast
  have i: "Itoa 1 = ''1''" "Itoa 2 = ''2''" "Itoa 3 = ''3''"
    by (simp_all add: Itoa_def digitsOf.simps digitChar_def)
  have u: "[0..<3] = [0, 1, 2]" by (simp add: upt_rec)
  have k': "map (pkeyCells (columnTypes tw)) rows = [[''1''], [''2''], [''3'']]"
    using k by (simp add: p u i)
  have "pkey tw' = 4" using adv p by simp
  moreover have "length rows = 3" using l by simp
  ultimately have "\<exists>h tw out h' tw'.
      newWriter toy_runtime g ProductInterleaved [] = (h, tw) \<and> writer_ok h tw \<and>
      genValues toy_runtime g 3 (h, tw) = Inr (out, h', tw') \<and>
      count_list (columnTypes tw) PkeyInt = 1 \<and> pkey tw' = 4 \<and>
      (\<exists>rows. bytes h' out = valuesText rows \<and> length rows = 3 \<and>
         map (pkeyCells (columnTypes tw)) rows = [[''1''], [''2''], [''3'']])"
    using w ok gv one b k' by (intro exI conjI) assumption+
  then show ?thesis
    using initDDL_tableTypes_ProductInterleaved(2) n3 unfolding g_def by (intro conjI)
qed

lemma db_accepts_toy: "db_accepts toy_runtime"
  by (simp add: db_accepts_def toy_runtime_def)

lemma pkeys_from_one:
  assumes "int K < 2 ^ 63"
  shows "map (\<lambda>j. Itoa (1 + of_nat j)) [0..<K] = map digitsOf [1..<Suc K]"
proof -
  have "Itoa (1 + of_nat j) = digitsOf (Suc j)" if "j < K" for j
  proof -
    have "int (Suc j) < 2 ^ 63" using that assms by linarith
    from Itoa_of_nat [OF this] show ?thesis by (simp add: add.commute)
  qed
  then have "map (\<lambda>j. Itoa (1 + of_nat j)) [0..<K] = map (\<lambda>j. digitsOf (Suc j)) [0..<K]"
    by simp
  also have "\<dots> = map digitsOf (map Suc [0..<K])" by (simp add: o_def)
  also have "map Suc [0..<K] = [1..<Suc K]" by (simp add: map_Suc_upt del: upt_Suc)
  finally show ?thesis .
qed

text \<open>
  C3. A writer fresh from \<open>newWriter\<close> that generates and submits batches of any sizes
  submits one statement per batch, each holding as many rows as the batch size, and the
  primary-key values of all the rows, in the order in which they are generated, are the
  decimal numerals 1, 2, 3, ... without a gap, as long as the count stays below \<open>2^63\<close>.
\<close>

theorem pkeys_gap_free:
  assumes "newWriter rt g t h0 = (h, tw)"
    and "insertBatches rt g ns db (h, tw) = Inr (db', h', tw')"
    and "int (sum_list (map (\<lambda>n. nat (sint n)) ns) * count_list (columnTypes tw) PkeyInt)
           < 2 ^ 63"
  shows "\<exists>batches.
           db' = db @ map (stmtText g t) batches \<and>
           map length batches = map (\<lambda>n. nat (sint n)) ns \<and>
           concat (map (pkeyCells (columnTypes tw)) (concat batches))
             = map digitsOf
                 [1..<Suc (sum_list (map (\<lambda>n. nat (sint n)) ns)
                            * count_list (columnTypes tw) PkeyInt)]"
proof -
  have ok: "writer_ok h tw" using newWriter_ok [OF assms(1)] .
  have p: "pkey tw = 1" and t: "table tw = t" using newWriter_fields [OF assms(1)] by simp_all
  from insertBatches_batches [OF ok assms(2)] obtain bs where
    b: "batchesOf rt g (table tw) (columnTypes tw) (map (\<lambda>n. nat (sint n)) ns) (pkey tw, rnd tw)
          = Inr (bs, pkey tw', rnd tw')"
    and d: "db' = db @ map (stmtText g (table tw)) bs" by blast
  note c = batchesOf_concat [OF b]
  have "concat (map (pkeyCells (columnTypes tw)) (concat bs))
          = map (\<lambda>j. Itoa (1 + of_nat j))
              [0..<sum_list (map (\<lambda>n. nat (sint n)) ns) * count_list (columnTypes tw) PkeyInt]"
    using rowsOf_pkeys(1) [OF c(1)] p by simp
  then show ?thesis using pkeys_from_one [OF assms(3)] d c(2) t by auto
qed

theorem pkeys_gap_free_witness:
  "int (sum_list (map (\<lambda>n. nat (sint n)) [2, 1, 3 :: go_int])
          * count_list [PkeyInt, Text, Text] PkeyInt) < 2 ^ 63 \<and>
   (\<exists>h tw db' h' tw'.
      newWriter toy_runtime (package_vars 42 10 100 200 30) Merchant [] = (h, tw) \<and>
      columnTypes tw = [PkeyInt, Text, Text] \<and>
      insertBatches toy_runtime (package_vars 42 10 100 200 30) [2, 1, 3] [] (h, tw)
        = Inr (db', h', tw') \<and>
      (\<exists>batches.
         db' = map (stmtText (package_vars 42 10 100 200 30) Merchant) batches \<and>
         map length batches = [2, 1, 3] \<and>
         concat (map (pkeyCells [PkeyInt, Text, Text]) (concat batches))
           = [''1'', ''2'', ''3'', ''4'', ''5'', ''6'']))"
proof -
  define g where "g = package_vars 42 10 100 200 30"
  obtain h tw where w: "newWriter toy_runtime g Merchant [] = (h, tw)"
    by (cases "newWriter toy_runtime g Merchant []")
  have ok: "writer_ok h tw" using newWriter_ok [OF w] .
  have t: "table tw = Merchant" using newWriter_fields(2) [OF w] .
  have c: "columnTypes tw = [PkeyInt, Text, Text]"
    using newWriter_fields(4) [OF w] by (simp add: g_def package_vars_def lookup_tableTypes_init)
  have "columns_ok g (table tw) 0 (columnTypes tw)" by (simp add: c)
  from insertBatches_total [OF toy_Intn_ok db_accepts_toy ok this, of "[2, 1, 3]" "[]"]
  obtain db' h' tw' where
    ib: "insertBatches toy_runtime g [2, 1, 3] [] (h, tw) = Inr (db', h', tw')" by blast
  have bound: "int (sum_list (map (\<lambda>n. nat (sint n)) [2, 1, 3 :: go_int])
                 * count_list [PkeyInt, Text, Text] PkeyInt) < 2 ^ 63"
    by simp
  have u: "map digitsOf [Suc 0..<7] = [''1'', ''2'', ''3'', ''4'', ''5'', ''6'']"
    by (simp add: upt_rec digitsOf.simps digitChar_def)
  from pkeys_gap_free [OF w ib] bound obtain batches where
    "db' = [] @ map (stmtText g Merchant) batches"
    "map length batches = map (\<lambda>n. nat (sint n)) [2, 1, 3 :: go_int]"
    "concat (map (pkeyCells (columnTypes tw)) (concat batches))
       = map digitsOf [1..<Suc (sum_list (map (\<lambda>n. nat (sint n)) [2, 1, 3 :: go_int])
                                 * count_list (columnTypes tw) PkeyInt)]"
    unfolding c by blast
  then have "db' = map (stmtText g Merchant) batches" "map length batches = [2, 1, 3]"
    "concat (map (pkeyCells [PkeyInt, Text, Text]) (concat batches))
       = [''1'', ''2'', ''3'', ''4'', ''5'', ''6'']"
    by (simp_all add: c u)
  then have "\<exists>h tw db' h' tw'.
      newWriter toy_runtime g Merchant [] = (h, tw) \<and>
      columnTypes tw = [PkeyInt, Text, Text] \<and>
      insertBatches toy_runtime g [2, 1, 3] [] (h, tw) = Inr (db', h', tw') \<and>
      (\<exists>batches.
         db' = map (stmtText g Merchant) batches \<and>
         map length batches = [2, 1, 3] \<and>
         concat (map (pkeyCells [PkeyInt, Text, Text]) (concat batches))
           = [''1'', ''2'', ''3'', ''4'', ''5'', ''6''])"
    using w c ib by (intro exI conjI) assumption+
  then show ?thesis using bound unfolding g_def by (intro conjI)
qed

section \<open>Unrecognized column kinds\<close>

lemma rand_Intn_error: "rand_Intn rt n r = Inl e \<Longrightarrow> \<exists>m. e = Panic m"
  by (auto simp: rand_Intn_def split: if_splits)

lemma fkeyTemp_error: "fkeyTemp rt g t i r = Inl e \<Longrightarrow> \<exists>m. e = Panic m"
  by (auto simp: fkeyTemp_def Intn_plus1_def split: if_splits sum.splits dest: rand_Intn_error)

lemma drawText_error: "drawText rt k r = Inl e \<Longrightarrow> \<exists>m. e = Panic m"
  by (induction k arbitrary: r) (auto split: sum.splits if_splits dest: rand_Intn_error)

lemma valueOf_error: "valueOf rt g t i c s = Inl e \<Longrightarrow> \<exists>m. e = Panic m"
  by (cases s)
    (auto simp: valueOf_def split: if_splits sum.splits prod.splits
      dest: rand_Intn_error fkeyTemp_error drawText_error)

lemma valueOf_unknown:
  assumes "c \<notin> {Text, IntCol, Dec, PkeyInt, FkeyInt}"
  shows "valueOf rt g t i c s = Inl (Panic ''undefined column type'')"
  using assms by (cases s) (simp add: valueOf_def)

lemma rowOf_unknown:
  assumes "c \<notin> {Text, IntCol, Dec, PkeyInt, FkeyInt}"
  shows "\<exists>m. rowOf rt g t i (pre @ c # post) s = Inl (Panic m)"
proof (induction pre arbitrary: i s)
  case Nil
  then show ?case by (simp add: valueOf_unknown [OF assms])
next
  case (Cons a pre)
  show ?case
  proof (cases "valueOf rt g t i a s")
    case (Inl e)
    then show ?thesis using valueOf_error [OF Inl] by auto
  next
    case (Inr p)
    obtain x s1 where p: "p = (x, s1)" by (cases p)
    from Cons [of "Suc i" s1] show ?thesis using Inr p by auto
  qed
qed

lemma rowOf_unknown_first:
  assumes "c \<notin> {Text, IntCol, Dec, PkeyInt, FkeyInt}" and "Intn_ok rt"
    and "columns_ok g t i pre"
  shows "rowOf rt g t i (pre @ c # post) s = Inl (Panic ''undefined column type'')"
  using assms(3)
proof (induction pre arbitrary: i s)
  case Nil
  then show ?case by (simp add: valueOf_unknown [OF assms(1)])
next
  case (Cons a pre)
  from Cons.prems obtain x s1 where v: "valueOf rt g t i a s = Inr (x, s1)"
    using valueOf_total [OF assms(2), of a g t i s] by auto
  from Cons.prems Cons.IH [of "Suc i" s1] show ?case using v by simp
qed

text \<open>
  C5. When the column list of the writer holds a kind that is none of \<open>Text\<close>,
  \<open>Int\<close>, \<open>Dec\<close>, \<open>PkeyInt\<close> and \<open>FkeyInt\<close>, a call of \<open>genValues\<close> for at
  least one tuple does not return: it panics. When the columns before it can be generated,
  the panic is the one of the \<open>default\<close> branch, raised in the first tuple.
\<close>

theorem genValues_unknown_kind_panics:
  assumes "writer_ok h tw" and "0 <s n"
    and "columnTypes tw = pre @ c # post"
    and "c \<notin> {Text, IntCol, Dec, PkeyInt, FkeyInt}"
  shows "(\<exists>msg. genValues rt g n (h, tw) = Inl (Panic msg)) \<and>
         (Intn_ok rt \<and> columns_ok g (table tw) 0 pre
            \<longrightarrow> genValues rt g n (h, tw) = Inl (Panic ''undefined column type''))"
proof -
  obtain k where k: "nat (sint n) = Suc k"
    using assms(2) by (cases "nat (sint n)") (auto simp: word_sless_alt)
  have row: "rowOf rt g (table tw) 0 (columnTypes tw) (pkey tw, rnd tw) = Inl e
      \<Longrightarrow> genValues rt g n (h, tw) = Inl e" for e
    using genValues_refines [OF assms(1), of rt g n] by (simp add: k)
  obtain m where "rowOf rt g (table tw) 0 (columnTypes tw) (pkey tw, rnd tw) = Inl (Panic m)"
    using rowOf_unknown [OF assms(4), of rt g "table tw" 0 pre post] assms(3) by auto
  then have a: "\<exists>msg. genValues rt g n (h, tw) = Inl (Panic msg)" using row by blast
  have b: "genValues rt g n (h, tw) = Inl (Panic ''undefined column type'')"
    if "Intn_ok rt" and "columns_ok g (table tw) 0 pre"
    using rowOf_unknown_first [OF assms(4) that, of post] assms(3) row by simp
  show ?thesis using a b by blast
qed

theorem genValues_unknown_kind_panics_witness:
  "writer_ok [replicate 44 (CHR 0x00)]
     \<lparr>pkey = 1, table = Merchant, rnd = 42 :: nat, columnTypes = [PkeyInt, Text] @ 7 # [Text],
      scratch = \<lparr>Data = 0, Len = 0, Cap = 44\<rparr>, valuesBuf = nil\<rparr> \<and>
   0 <s (5 :: go_int) \<and>
   (7 :: columnType) \<notin> {Text, IntCol, Dec, PkeyInt, FkeyInt} \<and>
   Intn_ok toy_runtime \<and>
   columns_ok (package_vars 42 10 100 200 30) Merchant 0 [PkeyInt, Text] \<and>
   genValues toy_runtime (package_vars 42 10 100 200 30) 5
     ([replicate 44 (CHR 0x00)],
      \<lparr>pkey = 1, table = Merchant, rnd = 42, columnTypes = [PkeyInt, Text] @ 7 # [Text],
       scratch = \<lparr>Data = 0, Len = 0, Cap = 44\<rparr>, valuesBuf = nil\<rparr>)
     = Inl (Panic ''undefined column type'')"
proof -
  define h where "h = [replicate 44 (CHR 0x00)]"
  define tw :: "nat tableWriter" where
    "tw = \<lparr>pkey = 1, table = Merchant, rnd = 42, columnTypes = [PkeyInt, Text] @ 7 # [Text],
           scratch = \<lparr>Data = 0, Len = 0, Cap = 44\<rparr>, valuesBuf = nil\<rparr>"
  define g where "g = package_vars 42 10 100 200 30"
  have ok: "writer_ok h tw"
    by (simp add: writer_ok_def wf_def valid_def footprint_def h_def tw_def nil_def)
  have n: "0 <s (5 :: go_int)" by (simp add: word_sless_alt)
  have c: "columnTypes tw = [PkeyInt, Text] @ 7 # [Text]" by (simp add: tw_def)
  have u: "(7 :: columnType) \<notin> {Text, IntCol, Dec, PkeyInt, FkeyInt}"
    by (simp add: columnType_defs)
  have co: "columns_ok g Merchant 0 [PkeyInt, Text]" by simp
  have "table tw = Merchant" by (simp add: tw_def)
  then have "genValues toy_runtime g 5 (h, tw) = Inl (Panic ''undefined column type'')"
    using genValues_unknown_kind_panics [OF ok n c u, of toy_runtime g] toy_Intn_ok co by simp
  then show ?thesis using ok n u toy_Intn_ok co unfolding h_def tw_def g_def by (intro conjI)
qed

section \<open>The loop of insertData\<close>

lemma batchSizes_small: "0 < m \<Longrightarrow> m < 500 \<Longrightarrow> batchSizes m = [m]"
  by (simp add: batchSizes_def)

lemma batchSizes_step: "500 \<le> m \<Longrightarrow> batchSizes m = 500 # batchSizes (m - 500)"
proof -
  assume a: "500 \<le> m"
  then have "m div 500 = Suc ((m - 500) div 500)" by (simp add: le_div_geq)
  moreover have "m mod 500 = (m - 500) mod 500" using a by (simp add: le_mod_geq)
  ultimately show ?thesis by (simp add: batchSizes_def)
qed

lemma batchSizes_sum: "sum_list (batchSizes m) = m"
proof -
  have "m div 500 * 500 + m mod 500 = m" by simp
  then show ?thesis by (auto simp: batchSizes_def sum_list_replicate)
qed

lemma batchSizes_le: "k \<in> set (batchSizes m) \<Longrightarrow> k \<le> 500"
  by (auto simp: batchSizes_def split: if_splits)

lemma insertLoop_stop:
  "\<not> 0 <s remainingRows \<Longrightarrow> insertLoop rt g remainingRows cur db s = Some (Inr (db, s))"
  by (subst insertLoop.simps) simp

lemma insertLoop_500:
  "nat (sint remainingRows) = m \<Longrightarrow>
     insertLoop rt g remainingRows 500 db s
       = Some (insertBatches rt g (map of_nat (batchSizes m)) db s)"
proof (induction m arbitrary: remainingRows db s rule: less_induct)
  case (less m)
  consider "m = 0" | "0 < m" "m < 500" | "500 \<le> m" by linarith
  then show ?case
  proof cases
    case 1
    then have "\<not> 0 <s remainingRows" using less.prems by (simp add: word_sless_alt)
    then show ?thesis using 1 by (simp add: insertLoop_stop batchSizes_def)
  next
    case 2
    have pos: "0 <s remainingRows" using 2 less.prems by (auto simp: word_sless_alt)
    have lt: "remainingRows <s 500" using 2 less.prems by (auto simp: word_sless_alt)
    have r: "of_nat m = remainingRows" using 2 less.prems by auto
    have z: "\<not> 0 <s remainingRows - remainingRows" by (simp add: word_sless_alt)
    show ?thesis
      apply (subst insertLoop.simps)
      using pos lt r z
      by (auto simp: batchSizes_small [OF 2] insertLoop_stop split: sum.splits)
  next
    case 3
    have s: "500 \<le> sint remainingRows" using 3 less.prems by linarith
    have pos: "0 <s remainingRows" using s by (simp add: word_sless_alt)
    have ge: "\<not> remainingRows <s 500" using s by (simp add: word_sless_alt)
    have "sint (remainingRows - 500) = sint remainingRows - sint (500 :: go_int)"
      using s by (intro sint_minus_le) simp_all
    then have n: "nat (sint (remainingRows - 500)) = m - 500" using less.prems by simp
    have ih: "insertLoop rt g (remainingRows - 500) 500 db' s'
                = Some (insertBatches rt g (map of_nat (batchSizes (m - 500))) db' s')"
      for db' s'
      using less.IH [OF _ n] 3 by simp
    show ?thesis
      apply (subst insertLoop.simps)
      using pos ge
      by (auto simp: batchSizes_step [OF 3] ih split: sum.splits)
  qed
qed

lemma batchSizes_words:
  "map (\<lambda>n. nat (sint n)) (map of_nat (batchSizes m) :: go_int list) = batchSizes m"
proof -
  have "nat (sint (of_nat k :: go_int)) = k" if "k \<in> set (batchSizes m)" for k
  proof -
    have "int k < 2 ^ 63" using batchSizes_le [OF that] by simp
    from sint_of_nat_small [OF this] show ?thesis by simp
  qed
  then show ?thesis by (simp add: o_def map_idI)
qed

text \<open>
  C4. For a table whose columns can be generated and a database that executes every
  statement, \<open>insertData\<close> returns after submitting one statement per batch; the batches
  hold 500 rows each, but for a last one with the remainder of the row target by 500 when
  that is not zero, and together they hold exactly as many rows as the row target.
\<close>

theorem insertData_batches:
  assumes "Intn_ok rt" and "db_accepts rt" and "writer_ok h tw"
    and "columns_ok g (table tw) 0 (columnTypes tw)"
    and "R = nat (sint (lookupOr 0 (tableRows g) (table tw)))"
  shows "\<exists>batches h' tw'.
           insertData rt g db (h, tw)
             = Some (Inr (db @ map (stmtText g (table tw)) batches, h', tw')) \<and>
           batchesOf rt g (table tw) (columnTypes tw) (map length batches) (pkey tw, rnd tw)
             = Inr (batches, pkey tw', rnd tw') \<and>
           map length batches
             = replicate (R div 500) 500 @ (if R mod 500 = 0 then [] else [R mod 500]) \<and>
           sum_list (map length batches) = R"
proof -
  define ns :: "go_int list" where "ns = map of_nat (batchSizes R)"
  have ns: "map (\<lambda>n. nat (sint n)) ns = batchSizes R"
    unfolding ns_def by (rule batchSizes_words)
  have loop: "insertData rt g db (h, tw) = Some (insertBatches rt g ns db (h, tw))"
    unfolding insertData_def batchSize_def ns_def
    using insertLoop_500 [of "lookupOr 0 (tableRows g) (table tw)" R] assms(5) by simp
  obtain db' h' tw' where ib: "insertBatches rt g ns db (h, tw) = Inr (db', h', tw')"
    using insertBatches_total [OF assms(1-4)] by blast
  from insertBatches_batches [OF assms(3) ib] obtain bs where
    b: "batchesOf rt g (table tw) (columnTypes tw) (batchSizes R) (pkey tw, rnd tw)
          = Inr (bs, pkey tw', rnd tw')"
    and d: "db' = db @ map (stmtText g (table tw)) bs"
    unfolding ns by blast
  have l: "map length bs = batchSizes R" using batchesOf_concat(2) [OF b] .
  have "insertData rt g db (h, tw) = Some (Inr (db @ map (stmtText g (table tw)) bs, h', tw'))"
    using loop ib d by simp
  moreover have "batchesOf rt g (table tw) (columnTypes tw) (map length bs) (pkey tw, rnd tw)
                   = Inr (bs, pkey tw', rnd tw')"
    using b l by simp
  moreover have "map length bs
                   = replicate (R div 500) 500 @ (if R mod 500 = 0 then [] else [R mod 500])"
    using l by (simp add: batchSizes_def)
  moreover have "sum_list (map length bs) = R" using l batchSizes_sum by simp
  ultimately show ?thesis by blast
qed


theorem insertData_batches_witness:
  "Intn_ok toy_runtime \<and> db_accepts toy_runtime \<and>
   (\<exists>h tw batches h' tw'.
      newWriter toy_runtime (initDDL [] [] [] (package_vars 42 1200 100 200 30)) Merchant []
        = (h, tw) \<and>
      writer_ok h tw \<and>
      columns_ok (initDDL [] [] [] (package_vars 42 1200 100 200 30)) (table tw) 0
        (columnTypes tw) \<and>
      nat (sint (lookupOr 0 (tableRows (initDDL [] [] [] (package_vars 42 1200 100 200 30)))
        (table tw))) = 1200 \<and>
      insertData toy_runtime (initDDL [] [] [] (package_vars 42 1200 100 200 30)) [] (h, tw)
        = Some (Inr (map (stmtText (initDDL [] [] [] (package_vars 42 1200 100 200 30)) Merchant)
                       batches, h', tw')) \<and>
      map length batches = [500, 500, 200] \<and>
      sum_list (map length batches) = 1200)"
proof -
  define g where "g = initDDL [] [] [] (package_vars 42 1200 100 200 30)"
  obtain h tw where w: "newWriter toy_runtime g Merchant [] = (h, tw)"
    by (cases "newWriter toy_runtime g Merchant []")
  have ok: "writer_ok h tw" using newWriter_ok [OF w] .
  have t: "table tw = Merchant" using newWriter_fields(2) [OF w] .
  have c: "columnTypes tw = [PkeyInt, Text, Text]"
    using newWriter_fields(4) [OF w]
    by (simp add: g_def initDDL_def package_vars_def lookup_tableTypes_init)
  have co: "columns_ok g (table tw) 0 (columnTypes tw)" by (simp add: c)
  have "lookupOr 0 (tableRows g) Merchant = 1200"
    by (simp add: g_def initDDL_def package_vars_def lookupOr_def tableName_distinct)
  then have R: "1200 = nat (sint (lookupOr 0 (tableRows g) (table tw)))" by (simp add: t)
  from insertData_batches [OF toy_Intn_ok db_accepts_toy ok co R, of "[]"]
  obtain batches h' tw' where
    i: "insertData toy_runtime g [] (h, tw)
          = Some (Inr ([] @ map (stmtText g (table tw)) batches, h', tw'))"
    and l: "map length batches
              = replicate (1200 div 500) 500 @ (if (1200 :: nat) mod 500 = 0 then [] else [1200 mod 500])"
    and s: "sum_list (map length batches) = 1200" by blast
  have i': "insertData toy_runtime g [] (h, tw)
              = Some (Inr (map (stmtText g Merchant) batches, h', tw'))"
    using i t by simp
  have l': "map length batches = [500, 500, 200]"
    using l by (simp add: numeral_2_eq_2)
  have R': "nat (sint (lookupOr 0 (tableRows g) (table tw))) = 1200" using R by simp
  have "\<exists>h tw batches h' tw'.
      newWriter toy_runtime g Merchant [] = (h, tw) \<and> writer_ok h tw \<and>
      columns_ok g (table tw) 0 (columnTypes tw) \<and>
      nat (sint (lookupOr 0 (tableRows g) (table tw))) = 1200 \<and>
      insertData toy_runtime g [] (h, tw)
        = Some (Inr (map (stmtText g Merchant) batches, h', tw')) \<and>
      map length batches = [500, 500, 200] \<and>
      sum_list (map length batches) = 1200"
    using w ok co R' i' l' s by (intro exI conjI) assumption+
  then show ?thesis using toy_Intn_ok db_accepts_toy unfolding g_def by (intro conjI)
qed

section \<open>Schedules\<close>

lemma writer_ok_ext: "ext A h h' \<Longrightarrow> writer_ok h tw \<Longrightarrow> writer_ok h' tw"
  by (auto simp: writer_ok_def wf_def dest: ext_valid)

lemma proc_inv_ext: "ext A h h' \<Longrightarrow> proc_inv rt g h t p stmts \<Longrightarrow> proc_inv rt g h' t p stmts"
  unfolding proc_inv_def using writer_ok_ext by blast

lemma insertBatch_Inr:
  assumes "writer_ok h tw" and "insertBatch rt g n db (h, tw) = Inr (db', h', tw')"
  shows "\<exists>rows. rowsOf rt g (table tw) (columnTypes tw) (nat (sint n)) (pkey tw, rnd tw)
                  = Inr (rows, pkey tw', rnd tw') \<and>
               db' = db @ [stmtText g (table tw) rows] \<and> writer_ok h' tw' \<and>
               table tw' = table tw \<and> columnTypes tw' = columnTypes tw \<and> ext UNIV h h'"
  using insertBatch_refines [OF assms(1), of rt g n db] assms(2)
  by (auto split: sum.splits option.splits)

lemma batchesOf_snoc:
  assumes "batchesOf rt g t cts ns s = Inr (bs, s1)" and "rowsOf rt g t cts n s1 = Inr (rows, s2)"
  shows "batchesOf rt g t cts (ns @ [n]) s = Inr (bs @ [rows], s2)"
  using assms
  by (induction ns arbitrary: s bs) (auto split: sum.splits)

lemma stmtsOf_prefix:
  assumes "batchesOf rt g t cts ns s = Inr (bs, s1)"
  shows "stmtsOf rt g t cts (ns @ rest) s = map (stmtText g t) bs @ stmtsOf rt g t cts rest s1"
  using assms
  by (induction ns arbitrary: s bs) (auto split: sum.splits)

lemma submittedBy_simps:
  "submittedBy i [] = []"
  "submittedBy i (tr @ [(j, out)]) = submittedBy i tr @ (if j = i then out else [])"
  by (simp_all add: submittedBy_def)

lemma submittedBy_out_of_range:
  "\<forall>e \<in> set trace. fst e < n \<Longrightarrow> n \<le> i \<Longrightarrow> submittedBy i trace = []"
  by (induction trace) (auto simp: submittedBy_def)


lemma loop_arith:
  fixes remaining :: go_int
  assumes "0 <s remaining"
  defines "cur' \<equiv> (if remaining <s 500 then remaining else 500)"
  shows "batchSizes (nat (sint remaining))
           = nat (sint cur') # batchSizes (nat (sint (remaining - cur')))"
    and "0 <s remaining - cur' \<Longrightarrow> cur' = 500"
proof -
  define m where "m = nat (sint remaining)"
  have pos: "0 < sint remaining" using assms(1) by (simp add: word_sless_alt)
  have m: "0 < m" "int m = sint remaining" using pos by (simp_all add: m_def)
  show "batchSizes (nat (sint remaining))
          = nat (sint cur') # batchSizes (nat (sint (remaining - cur')))"
  proof (cases "m < 500")
    case True
    then have "remaining <s 500" using m by (simp add: word_sless_alt)
    then have c: "cur' = remaining" by (simp add: cur'_def)
    show ?thesis using batchSizes_small [OF m(1) True] c
      by (simp add: m_def batchSizes_def)
  next
    case False
    then have s: "500 \<le> sint remaining" using m by linarith
    then have "\<not> remaining <s 500" by (simp add: word_sless_alt)
    then have c: "cur' = 500" by (simp add: cur'_def)
    have "sint (remaining - 500) = sint remaining - sint (500 :: go_int)"
      using s by (intro sint_minus_le) simp_all
    then have "nat (sint (remaining - 500)) = m - 500" by (simp add: m_def)
    then show ?thesis using batchSizes_step [of m] False c by (simp add: m_def)
  qed
  show "cur' = 500" if "0 <s remaining - cur'"
  proof (rule ccontr)
    assume "cur' \<noteq> 500"
    then have "cur' = remaining" by (simp add: cur'_def split: if_splits)
    then show False using that by (simp add: word_sless_alt)
  qed
qed

lemma insertIter_inv:
  assumes "proc_inv rt g h t p stmts" and "0 <s rowsLeft p"
    and "insertIter rt g (rowsLeft p) (batch p) db (h, writer p)
           = Inr (remaining', cur', db', h', tw')"
  shows "\<exists>stmt. db' = db @ [stmt] \<and>
           proc_inv rt g h' t \<lparr>rowsLeft = remaining', batch = cur', writer = tw'\<rparr> (stmts @ [stmt]) \<and>
           ext UNIV h h'"
proof -
  from assms(1) obtain bs where ok: "writer_ok h (writer p)" and t: "table (writer p) = t"
    and c: "columnTypes (writer p) = lookupOr [] (tableTypes g) t"
    and sz: "batchSizes (nat (sint (lookupOr 0 (tableRows g) t)))
               = map length bs @ batchSizes (nat (sint (rowsLeft p)))"
    and b: "batchesOf rt g t (lookupOr [] (tableTypes g) t) (map length bs) (1, NewSource rt (seed g))
              = Inr (bs, pkey (writer p), rnd (writer p))"
    and st: "stmts = map (stmtText g t) bs"
    by (auto simp: proc_inv_def)
  have b500: "batch p = 500" using assms(1,2) by (simp add: proc_inv_def)
  define cb where "cb = (if rowsLeft p <s 500 then rowsLeft p else 500)"
  from assms(3) have ib: "insertBatch rt g cb db (h, writer p) = Inr (db', h', tw')"
    and r': "remaining' = rowsLeft p - cb" and c': "cur' = cb"
    by (auto simp: insertIter_def b500 cb_def Let_def split: sum.splits)
  from insertBatch_Inr [OF ok ib] obtain rows where
    rows: "rowsOf rt g t (lookupOr [] (tableTypes g) t) (nat (sint cb)) (pkey (writer p), rnd (writer p))
             = Inr (rows, pkey tw', rnd tw')"
    and d: "db' = db @ [stmtText g t rows]" and ok': "writer_ok h' tw'"
    and t': "table tw' = t" and ct': "columnTypes tw' = lookupOr [] (tableTypes g) t"
    and e: "ext UNIV h h'"
    by (auto simp: t c)
  note la = loop_arith [OF assms(2), folded cb_def]
  have len: "length rows = nat (sint cb)" using rowsOf_length [OF rows] .
  have "batchSizes (nat (sint (lookupOr 0 (tableRows g) t)))
          = map length (bs @ [rows]) @ batchSizes (nat (sint remaining'))"
    using sz la(1) len r' by simp
  moreover have "batchesOf rt g t (lookupOr [] (tableTypes g) t) (map length (bs @ [rows]))
                   (1, NewSource rt (seed g)) = Inr (bs @ [rows], pkey tw', rnd tw')"
    using batchesOf_snoc [OF b] rows len by simp
  moreover have "stmts @ [stmtText g t rows] = map (stmtText g t) (bs @ [rows])"
    using st by simp
  moreover have "0 <s remaining' \<longrightarrow> cur' = 500" using la(2) r' c' by simp
  ultimately have "proc_inv rt g h' t \<lparr>rowsLeft = remaining', batch = cur', writer = tw'\<rparr>
                     (stmts @ [stmtText g t rows])"
    unfolding proc_inv_def using ok' t' ct' by (simp del: map_append) blast
  then show ?thesis using d e by blast
qed

lemma goStep_inv:
  assumes "sys_inv rt g ts db0 st trace" and "goStep rt g e st = Inr (st', out)"
  shows "sys_inv rt g ts db0 st' (trace @ out)"
proof -
  obtain pending db h ps where st: "st = (pending, db, h, ps)" by (cases st) auto
  from assms(1) have tabs: "map (\<lambda>p. table (writer p)) ps @ pending = ts"
    and db: "db = db0 @ concat (map snd trace)"
    and rng: "\<forall>e \<in> set trace. fst e < length ps"
    and inv: "\<forall>i < length ps. proc_inv rt g h (ts ! i) (ps ! i) (submittedBy i trace)"
    by (auto simp: sys_inv_def st)
  show ?thesis
  proof (cases e)
    case Spawn
    show ?thesis
    proof (cases pending)
      case Nil
      then show ?thesis using assms Spawn st by simp
    next
      case (Cons t rest)
      obtain h1 w where nw: "newWriter rt g t h = (h1, w)" by (cases "newWriter rt g t h")
      define p where "p = \<lparr>rowsLeft = lookupOr 0 (tableRows g) t, batch = batchSize, writer = w\<rparr>"
      have st': "st' = (rest, db, h1, ps @ [p])" and out: "out = []"
        using assms(2) Spawn st Cons nw by (simp_all add: p_def)
      note f = newWriter_fields [OF nw]
      have ti: "ts ! length ps = t" using tabs Cons
        by (metis length_map nth_append_length)
      have new: "proc_inv rt g h1 t p (submittedBy (length ps) trace)"
      proof -
        have "submittedBy (length ps) trace = []"
          using submittedBy_out_of_range [OF rng] by simp
        then show ?thesis
          unfolding proc_inv_def
          using newWriter_ok [OF nw] f(1-4)
          by (auto simp: p_def batchSize_def intro!: exI [of _ "[]"])
      qed
      have old: "proc_inv rt g h1 (ts ! i) (ps ! i) (submittedBy i trace)" if "i < length ps" for i
        using proc_inv_ext [OF f(5)] inv that by blast
      have "\<forall>i < length (ps @ [p]). proc_inv rt g h1 (ts ! i) ((ps @ [p]) ! i) (submittedBy i trace)"
        using old new ti by (auto simp: nth_append less_Suc_eq)
      moreover have "map (\<lambda>p. table (writer p)) (ps @ [p]) @ rest = ts"
        using tabs Cons f(2) by (simp add: p_def)
      moreover have "\<forall>e \<in> set trace. fst e < length (ps @ [p])" using rng by auto
      ultimately show ?thesis using db by (simp add: sys_inv_def st' out)
    qed
  next
    case (Run i)
    show ?thesis
    proof (cases "i < length ps \<and> 0 <s rowsLeft (ps ! i)")
      case False
      then show ?thesis using assms Run st by auto
    next
      case True
      from assms(2) Run st True obtain remaining' cur' db' h' tw' where
        it: "insertIter rt g (rowsLeft (ps ! i)) (batch (ps ! i)) db (h, writer (ps ! i))
               = Inr (remaining', cur', db', h', tw')"
        and st': "st' = (pending, db', h',
                         ps[i := \<lparr>rowsLeft = remaining', batch = cur', writer = tw'\<rparr>])"
        and out: "out = [(i, drop (length db) db')]"
        by (auto split: sum.splits)
      define p where "p = \<lparr>rowsLeft = remaining', batch = cur', writer = tw'\<rparr>"
      from insertIter_inv [OF _ _ it, of "ts ! i" "submittedBy i trace"] inv True
      obtain stmt where d: "db' = db @ [stmt]"
        and pi: "proc_inv rt g h' (ts ! i) p (submittedBy i trace @ [stmt])"
        and e: "ext UNIV h h'"
        by (auto simp: p_def)
      have out': "out = [(i, [stmt])]" using out d by simp
      have tab: "table (writer p) = table (writer (ps ! i))"
        using pi inv True by (simp add: proc_inv_def)
      have "map (\<lambda>p. table (writer p)) (ps[i := p]) = map (\<lambda>p. table (writer p)) ps"
        using tab True by (simp add: map_update list_update_same_conv)
      then have a: "map (\<lambda>p. table (writer p)) (ps[i := p]) @ pending = ts" using tabs by simp
      have b: "db' = db0 @ concat (map snd (trace @ out))" using db d out' by simp
      have c: "\<forall>e \<in> set (trace @ out). fst e < length (ps[i := p])"
        using rng True out' by auto
      have "proc_inv rt g h' (ts ! j) ((ps[i := p]) ! j) (submittedBy j (trace @ out))"
        if "j < length ps" for j
      proof (cases "j = i")
        case True
        then show ?thesis using pi that by (simp add: out' submittedBy_simps)
      next
        case False
        have "proc_inv rt g h (ts ! j) (ps ! j) (submittedBy j trace)" using inv that by blast
        from proc_inv_ext [OF e this] show ?thesis using False that
          by (simp add: out' submittedBy_simps)
      qed
      then show ?thesis using a b c by (simp add: sys_inv_def st' p_def)
    qed
  qed
qed

lemma runSched_inv:
  assumes "sys_inv rt g ts db0 st trace" and "runSched rt g sched (st, trace) = Inr (st', trace')"
  shows "sys_inv rt g ts db0 st' trace'"
  using assms
proof (induction sched arbitrary: st trace)
  case Nil
  then show ?case by simp
next
  case (Cons e es)
  from Cons.prems(2) obtain st1 out where s: "goStep rt g e st = Inr (st1, out)"
    and r: "runSched rt g es (st1, trace @ out) = Inr (st', trace')"
    by (auto split: sum.splits)
  from Cons.IH [OF goStep_inv [OF Cons.prems(1) s] r] show ?case .
qed

lemma sys_inv_init: "sys_inv rt g ts db0 (ts, db0, h0, []) []"
  by (simp add: sys_inv_def)


lemma proc_inv_statements:
  assumes "proc_inv rt g h t p stmts"
  shows "stmts = take (length stmts) (tableStatements rt g t)"
    and "\<not> 0 <s rowsLeft p \<Longrightarrow> stmts = tableStatements rt g t"
proof -
  from assms obtain bs where
    sz: "batchSizes (nat (sint (lookupOr 0 (tableRows g) t)))
           = map length bs @ batchSizes (nat (sint (rowsLeft p)))"
    and b: "batchesOf rt g t (lookupOr [] (tableTypes g) t) (map length bs) (1, NewSource rt (seed g))
              = Inr (bs, pkey (writer p), rnd (writer p))"
    and st: "stmts = map (stmtText g t) bs"
    by (auto simp: proc_inv_def)
  have ts: "tableStatements rt g t
              = stmts @ stmtsOf rt g t (lookupOr [] (tableTypes g) t)
                  (batchSizes (nat (sint (rowsLeft p)))) (pkey (writer p), rnd (writer p))"
    unfolding tableStatements_def sz st by (rule stmtsOf_prefix [OF b])
  show "stmts = take (length stmts) (tableStatements rt g t)" by (simp add: ts)
  show "stmts = tableStatements rt g t" if "\<not> 0 <s rowsLeft p"
  proof -
    have "nat (sint (rowsLeft p)) = 0" using that by (simp add: word_sless_alt)
    then show ?thesis by (simp add: ts batchSizes_def)
  qed
qed

lemma insertData_alone:
  assumes "newWriter rt g t h0 = (h, tw)"
    and "insertData rt g db0 (h, tw) = Some (Inr (db', h', tw'))"
  shows "db' = db0 @ tableStatements rt g t"
proof -
  note f = newWriter_fields [OF assms(1)]
  define R where "R = nat (sint (lookupOr 0 (tableRows g) t))"
  define ns :: "go_int list" where "ns = map of_nat (batchSizes R)"
  have ns: "map (\<lambda>n. nat (sint n)) ns = batchSizes R"
    unfolding ns_def by (rule batchSizes_words)
  have "insertData rt g db0 (h, tw) = Some (insertBatches rt g ns db0 (h, tw))"
    unfolding insertData_def batchSize_def ns_def R_def
    using f(2) by (simp add: insertLoop_500 [OF refl])
  then have ib: "insertBatches rt g ns db0 (h, tw) = Inr (db', h', tw')" using assms(2) by simp
  from insertBatches_batches [OF newWriter_ok [OF assms(1)] ib] obtain bs where
    b: "batchesOf rt g t (lookupOr [] (tableTypes g) t) (batchSizes R) (1, NewSource rt (seed g))
          = Inr (bs, pkey tw', rnd tw')"
    and d: "db' = db0 @ map (stmtText g t) bs"
    unfolding ns f by blast
  have "tableStatements rt g t = map (stmtText g t) bs"
    unfolding tableStatements_def R_def [symmetric]
    using stmtsOf_prefix [OF b, of "[]"] by simp
  then show ?thesis using d by simp
qed

lemma insertData_total:
  assumes "Intn_ok rt" and "db_accepts rt" and "writer_ok h tw"
    and "columns_ok g (table tw) 0 (columnTypes tw)"
  shows "\<exists>db' h' tw'. insertData rt g db (h, tw) = Some (Inr (db', h', tw'))"
proof -
  define ns :: "go_int list" where
    "ns = map of_nat (batchSizes (nat (sint (lookupOr 0 (tableRows g) (table tw)))))"
  have "insertData rt g db (h, tw) = Some (insertBatches rt g ns db (h, tw))"
    unfolding insertData_def batchSize_def ns_def
    by (simp add: insertLoop_500 [OF refl])
  then show ?thesis using insertBatches_total [OF assms, of ns db] by auto
qed

lemma goStep_total:
  assumes "Intn_ok rt" and "db_accepts rt"
    and "\<forall>t \<in> set ts. columns_ok g t 0 (lookupOr [] (tableTypes g) t)"
    and "sys_inv rt g ts db0 st trace"
  shows "\<exists>st' out. goStep rt g e st = Inr (st', out)"
proof -
  obtain pending db h ps where st: "st = (pending, db, h, ps)" by (cases st) auto
  show ?thesis
  proof (cases e)
    case Spawn
    then show ?thesis using st by (auto split: list.splits prod.splits)
  next
    case (Run i)
    show ?thesis
    proof (cases "i < length ps \<and> 0 <s rowsLeft (ps ! i)")
      case False
      then show ?thesis using Run st by auto
    next
      case True
      from assms(4) True have pi: "proc_inv rt g h (ts ! i) (ps ! i) (submittedBy i trace)"
        and tabs: "map (\<lambda>p. table (writer p)) ps @ pending = ts"
        by (auto simp: sys_inv_def st)
      have "length ps \<le> length ts" using tabs by auto
      then have "ts ! i \<in> set ts" using True by simp
      then have co: "columns_ok g (table (writer (ps ! i))) 0 (columnTypes (writer (ps ! i)))"
        using assms(3) pi by (simp add: proc_inv_def)
      have ok: "writer_ok h (writer (ps ! i))" using pi by (simp add: proc_inv_def)
      have "\<exists>db' h' tw'. insertBatch rt g n db (h, writer (ps ! i)) = Inr (db', h', tw')" for n
        using insertBatches_total [OF assms(1,2) ok co, of "[n]" db]
        by (auto split: sum.splits)
      then have "\<exists>r. insertIter rt g (rowsLeft (ps ! i)) (batch (ps ! i)) db (h, writer (ps ! i))
                   = Inr r"
        unfolding insertIter_def Let_def by (metis (no_types, lifting) old.sum.simps(6) case_prod_conv)
      then show ?thesis using Run st True by (auto split: sum.splits)
    qed
  qed
qed

lemma runSched_total:
  assumes "Intn_ok rt" and "db_accepts rt"
    and "\<forall>t \<in> set ts. columns_ok g t 0 (lookupOr [] (tableTypes g) t)"
    and "sys_inv rt g ts db0 st trace"
  shows "\<exists>st' trace'. runSched rt g sched (st, trace) = Inr (st', trace')"
  using assms(4)
proof (induction sched arbitrary: st trace)
  case Nil
  show ?case by (rule exI [of _ st], rule exI [of _ trace]) simp
next
  case (Cons e es)
  obtain st1 out where s: "goStep rt g e st = Inr (st1, out)"
    using goStep_total [OF assms(1-3) Cons.prems] by blast
  from Cons.IH [OF goStep_inv [OF Cons.prems s]] show ?case using s by simp
qed

text \<open>
  C1. What a writer submits is a function of the library, the flags (the seed among them),
  the catalog and the table: \<open>tableStatements\<close>. A writer that runs alone to the end, from
  whatever heap and database, adds exactly these statements; so generating a table twice
  gives the same bytes. And when the writers of a table list run as goroutines under any
  schedule of writer creations and loop iterations, the database holds the statements
  in the order of the schedule, and the statements of each writer are a prefix of those of
  its table, all of them once its loop has ended.
\<close>

theorem generation_deterministic:
  "(\<forall>h0 db0 db' h' tw'.
      insertData rt g db0 (newWriter rt g t h0) = Some (Inr (db', h', tw'))
        \<longrightarrow> db' = db0 @ tableStatements rt g t) \<and>
   (\<forall>sched ts db0 h0 pending db h ps trace.
      runSched rt g sched ((ts, db0, h0, []), []) = Inr ((pending, db, h, ps), trace)
        \<longrightarrow> db = db0 @ concat (map snd trace) \<and>
            (\<forall>i < length ps.
               table (writer (ps ! i)) = ts ! i \<and>
               submittedBy i trace
                 = take (length (submittedBy i trace)) (tableStatements rt g (ts ! i)) \<and>
               (\<not> 0 <s rowsLeft (ps ! i)
                  \<longrightarrow> submittedBy i trace = tableStatements rt g (ts ! i))))"
proof (intro conjI allI impI)
  fix h0 db0 db' h' tw'
  assume a: "insertData rt g db0 (newWriter rt g t h0) = Some (Inr (db', h', tw'))"
  obtain h tw where w: "newWriter rt g t h0 = (h, tw)" by (cases "newWriter rt g t h0")
  show "db' = db0 @ tableStatements rt g t"
    using insertData_alone [OF w] a w by simp
next
  fix sched ts db0 h0 pending db h ps trace
  assume "runSched rt g sched ((ts, db0, h0, []), []) = Inr ((pending, db, h, ps), trace)"
  from runSched_inv [OF sys_inv_init this]
  have inv: "sys_inv rt g ts db0 (pending, db, h, ps) trace" .
  then show "db = db0 @ concat (map snd trace)" by (simp add: sys_inv_def)
  fix i assume i: "i < length ps"
  have pi: "proc_inv rt g h (ts ! i) (ps ! i) (submittedBy i trace)"
    using inv i by (simp add: sys_inv_def)
  show "table (writer (ps ! i)) = ts ! i" using pi by (simp add: proc_inv_def)
  show "submittedBy i trace = take (length (submittedBy i trace)) (tableStatements rt g (ts ! i))"
    using proc_inv_statements(1) [OF pi] .
  assume "\<not> 0 <s rowsLeft (ps ! i)"
  then show "submittedBy i trace = tableStatements rt g (ts ! i)"
    using proc_inv_statements(2) [OF pi] by simp
qed

lemma toy_catalog_columns_ok:
  assumes "g = initDDL [] [] [] (package_vars sd 10 100 200 30)"
  shows "\<forall>t \<in> set [Merchant, Product, Variant, Store].
           columns_ok g t 0 (lookupOr [] (tableTypes g) t)"
proof -
  have tt: "tableTypes g = tableTypes_init" and m: "nMerchants g = 10" and p: "nProducts g = 100"
    by (simp_all add: assms initDDL_def package_vars_def)
  show ?thesis
    by (simp add: tt lookup_tableTypes_init fkey_ok_def m p word_sless_alt tableName_distinct
        tableName_distinct [symmetric])
qed

theorem generation_deterministic_witness:
  "(\<exists>db' h' tw'.
      insertData toy_runtime (initDDL [] [] [] (package_vars 42 10 100 200 30)) []
        (newWriter toy_runtime (initDDL [] [] [] (package_vars 42 10 100 200 30)) Variant [])
        = Some (Inr (db', h', tw')) \<and>
      db' = [] @ tableStatements toy_runtime (initDDL [] [] [] (package_vars 42 10 100 200 30)) Variant) \<and>
   (\<exists>pending db h ps trace.
      runSched toy_runtime (initDDL [] [] [] (package_vars 42 10 100 200 30))
        [Spawn, Run 0, Spawn, Spawn, Run 2, Run 1, Run 0, Spawn, Run 3, Run 2, Run 1]
        (([Merchant, Product, Variant, Store], [], [], []), [])
        = Inr ((pending, db, h, ps), trace) \<and>
      db = [] @ concat (map snd trace) \<and>
      (\<forall>i < length ps.
         table (writer (ps ! i)) = [Merchant, Product, Variant, Store] ! i \<and>
         submittedBy i trace
           = take (length (submittedBy i trace))
               (tableStatements toy_runtime (initDDL [] [] [] (package_vars 42 10 100 200 30))
                  ([Merchant, Product, Variant, Store] ! i)) \<and>
         (\<not> 0 <s rowsLeft (ps ! i)
            \<longrightarrow> submittedBy i trace
                  = tableStatements toy_runtime (initDDL [] [] [] (package_vars 42 10 100 200 30))
                      ([Merchant, Product, Variant, Store] ! i))))"
proof -
  define g where "g = initDDL [] [] [] (package_vars 42 10 100 200 30)"
  define ts where "ts = [Merchant, Product, Variant, Store]"
  define sched where
    "sched = [Spawn, Run 0, Spawn, Spawn, Run 2, Run 1, Run 0, Spawn, Run 3, Run 2, Run 1]"
  note th = generation_deterministic [of toy_runtime g Variant]
  have co: "\<forall>t \<in> set ts. columns_ok g t 0 (lookupOr [] (tableTypes g) t)"
    unfolding ts_def using toy_catalog_columns_ok [OF g_def] .
  obtain h tw where w: "newWriter toy_runtime g Variant [] = (h, tw)"
    by (cases "newWriter toy_runtime g Variant []")
  have "columns_ok g (table tw) 0 (columnTypes tw)"
    using co newWriter_fields(2,4) [OF w] by (simp add: ts_def)
  from insertData_total [OF toy_Intn_ok db_accepts_toy newWriter_ok [OF w] this, of "[]"]
  obtain db' h' tw' where i: "insertData toy_runtime g [] (h, tw) = Some (Inr (db', h', tw'))"
    by blast
  have i': "insertData toy_runtime g [] (newWriter toy_runtime g Variant [])
              = Some (Inr (db', h', tw'))"
    using i w by simp
  have d: "db' = [] @ tableStatements toy_runtime g Variant"
    using th [THEN conjunct1, THEN spec, THEN spec, THEN spec, THEN spec, THEN spec, THEN mp,
        OF i'] .
  have one: "\<exists>db' h' tw'.
      insertData toy_runtime g [] (newWriter toy_runtime g Variant []) = Some (Inr (db', h', tw')) \<and>
      db' = [] @ tableStatements toy_runtime g Variant"
    using i' d by (intro exI conjI)
  obtain st' trace where
    r: "runSched toy_runtime g sched ((ts, [], [], []), []) = Inr (st', trace)"
    using runSched_total [OF toy_Intn_ok db_accepts_toy co sys_inv_init] by blast
  obtain pending db h2 ps where st': "st' = (pending, db, h2, ps)" by (cases st') auto
  have two: "\<exists>pending db h ps trace.
      runSched toy_runtime g sched ((ts, [], [], []), []) = Inr ((pending, db, h, ps), trace) \<and>
      db = [] @ concat (map snd trace) \<and>
      (\<forall>i < length ps.
         table (writer (ps ! i)) = ts ! i \<and>
         submittedBy i trace
           = take (length (submittedBy i trace)) (tableStatements toy_runtime g (ts ! i)) \<and>
         (\<not> 0 <s rowsLeft (ps ! i)
            \<longrightarrow> submittedBy i trace = tableStatements toy_runtime g (ts ! i)))"
    using th [THEN conjunct2, THEN spec, THEN spec, THEN spec, THEN spec, THEN spec, THEN spec,
        THEN spec, THEN spec, THEN spec, THEN mp, OF r [unfolded st']] r [unfolded st']
    by (intro exI conjI) (assumption | erule conjunct1 | erule conjunct2)+
  show ?thesis using one two unfolding g_def ts_def sched_def by (intro conjI)
qed

section \<open>The pool\<close>







end
